theory Spec2Isabelle
  imports Main "HOL-Library.Word" "HOL-Library.Signed_Division"
begin

unbundle bit_operations_syntax

section \<open>Machine model\<close>

text \<open>
  The allocator of \<^verbatim>\<open>heap.c\<close> is written for an LP64 machine: the source says it
  ``works on systems where \<^verbatim>\<open>H_PS\<close> is 8, and \<^verbatim>\<open>H_IS\<close> is 4''. Pointers and
  \<^verbatim>\<open>size_t\<close> are 64-bit words, \<^verbatim>\<open>int\<close> and \<^verbatim>\<open>info\<close> are 32-bit words, and
  memory is an array of bytes indexed by 64-bit addresses. Multi-byte values are stored
  little-endian (x86-64): a pointer is its low 32 bits followed by its high 32 bits.
  The struct \<^verbatim>\<open>chunk\<close> is packed: the header tag is at offset 0, \<^verbatim>\<open>prev\<close> at
  offset 4 and \<^verbatim>\<open>next\<close> at offset 12.

  Integer conversions follow C: an \<^verbatim>\<open>int\<close> that meets a \<^verbatim>\<open>size_t\<close> operand is
  sign-extended to 64 bits (\<open>scast\<close>) and the operation is unsigned; a 64-bit value
  assigned to an \<^verbatim>\<open>int\<close> is truncated (\<open>ucast\<close>). Signed overflow, which C leaves
  undefined, wraps around in the model.
\<close>

type_synonym addr = "64 word"
type_synonym byte = "8 word"
type_synonym info = "32 word"
type_synonym memory = "addr \<Rightarrow> byte"

definition bytes32 :: "info \<Rightarrow> byte list" where
  "bytes32 v = [ucast v, ucast (drop_bit 8 v), ucast (drop_bit 16 v), ucast (drop_bit 24 v)]"

definition cat32 :: "byte \<Rightarrow> byte \<Rightarrow> byte \<Rightarrow> byte \<Rightarrow> info" where
  "cat32 b0 b1 b2 b3 =
     ucast b0 OR push_bit 8 (ucast b1) OR push_bit 16 (ucast b2) OR push_bit 24 (ucast b3)"

definition cat64 :: "info \<Rightarrow> info \<Rightarrow> addr" where
  "cat64 lo hi = ucast lo OR push_bit 32 (ucast hi)"

fun store_bytes :: "memory \<Rightarrow> addr \<Rightarrow> byte list \<Rightarrow> memory" where
  "store_bytes m a [] = m"
| "store_bytes m a (b # bs) = store_bytes (m(a := b)) (a + 1) bs"

definition load_bytes :: "memory \<Rightarrow> addr \<Rightarrow> nat \<Rightarrow> byte list" where
  "load_bytes m a n = map (\<lambda>i. m (a + of_nat i)) [0..<n]"

definition load32 :: "memory \<Rightarrow> addr \<Rightarrow> info" where
  "load32 m a = cat32 (m a) (m (a + 1)) (m (a + 2)) (m (a + 3))"

definition store32 :: "memory \<Rightarrow> addr \<Rightarrow> info \<Rightarrow> memory" where
  "store32 m a v = store_bytes m a (bytes32 v)"

definition load64 :: "memory \<Rightarrow> addr \<Rightarrow> addr" where
  "load64 m a = cat64 (load32 m a) (load32 m (a + 4))"

definition store64 :: "memory \<Rightarrow> addr \<Rightarrow> addr \<Rightarrow> memory" where
  "store64 m a v = store32 (store32 m a (ucast v)) (a + 4) (ucast (drop_bit 32 v))"

text \<open>C's \<^verbatim>\<open>/\<close> on \<^verbatim>\<open>int\<close> truncates towards zero; \<^verbatim>\<open>!\<close> yields 1 for 0 and 0 otherwise.\<close>

definition int_div :: "info \<Rightarrow> info \<Rightarrow> info" where
  "int_div a b = word_of_int (sint a sdiv sint b)"

definition c_not :: "info \<Rightarrow> info" where
  "c_not x = (if x = 0 then 1 else 0)"

subsection \<open>The C library calls the allocator makes\<close>

text \<open>
  \<^verbatim>\<open>memset\<close>, \<^verbatim>\<open>memcpy\<close>, \<^verbatim>\<open>strlen\<close> and \<^verbatim>\<open>strcpy\<close> are modelled at their
  contract: \<^verbatim>\<open>memcpy\<close> and \<^verbatim>\<open>strcpy\<close> read the source bytes from the memory they
  are called on and then write the destination (the C standard leaves overlapping
  ranges undefined). \<^verbatim>\<open>strlen\<close> scans for the first zero byte and need not end.
\<close>

definition memset :: "memory \<Rightarrow> addr \<Rightarrow> byte \<Rightarrow> addr \<Rightarrow> memory" where
  "memset m p c n = store_bytes m p (replicate (unat n) c)"

definition memcpy :: "memory \<Rightarrow> addr \<Rightarrow> addr \<Rightarrow> addr \<Rightarrow> memory" where
  "memcpy m q p n = store_bytes m q (load_bytes m p (unat n))"

partial_function (option) strlen_from :: "memory \<Rightarrow> addr \<Rightarrow> nat \<Rightarrow> nat option" where
  "strlen_from m s n = (if m (s + of_nat n) = 0 then Some n else strlen_from m s (Suc n))"

definition strlen :: "memory \<Rightarrow> addr \<Rightarrow> nat option" where
  "strlen m s = strlen_from m s 0"

definition strcpy :: "memory \<Rightarrow> addr \<Rightarrow> addr \<Rightarrow> memory option" where
  "strcpy m dst src =
     (case strlen m src of
        None \<Rightarrow> None
      | Some n \<Rightarrow> Some (store_bytes m dst (load_bytes m src (Suc n))))"

section \<open>Sizes and flags\<close>

definition H_PS :: addr where "H_PS = 8"
definition H_IS :: addr where "H_IS = 4"
definition H_MINPAYLOAD :: addr where "H_MINPAYLOAD = 2 * H_PS"
definition H_MINCHUNK :: addr where "H_MINCHUNK = H_MINPAYLOAD + 2 * H_IS"
definition H_FREE :: info where "H_FREE = 1"
definition H_SIZEMASK :: info where "H_SIZEMASK = NOT 7"

section \<open>Global state\<close>

text \<open>
  The statics \<^verbatim>\<open>BASE\<close>, \<^verbatim>\<open>HWM\<close>, \<^verbatim>\<open>PAGE_SIZE\<close> and \<^verbatim>\<open>debug\<close>, the address of the
  static array \<^verbatim>\<open>FreeList\<close>, the memory, and what the allocator sees of its
  environment: the program break moved by \<^verbatim>\<open>sbrk\<close>, the lowest and the highest
  break the operating system accepts for this process, the value of
  \<^verbatim>\<open>getpagesize()\<close>, whether \<^verbatim>\<open>getenv("DEBUG")\<close> is non-null, and the lines
  written to standard output.
\<close>

datatype event =
    Split_entered
  | Cannot_free
  | Chunk_printed addr info info

record heap_state =
  mem :: memory
  BASE :: addr
  HWM :: addr
  PAGE_SIZE :: info
  debug :: bool
  FreeList :: addr
  brk :: addr
  os_brk_lo :: addr
  os_brk_hi :: addr
  os_pagesize :: info
  env_DEBUG :: bool
  out :: "event list"

text \<open>
  \<^verbatim>\<open>sbrk(incr)\<close> takes a signed 64-bit increment. When the operating system accepts
  the new break \<open>brk + incr\<close>, which must lie between \<open>os_brk_lo\<close> and
  \<open>os_brk_hi\<close> (the sum is taken in the integers: it does not wrap around), the
  break moves there and the call returns the previous break. When it refuses, the call
  returns \<^verbatim>\<open>(void*)-1\<close> and the break stays where it is. \<^verbatim>\<open>sbrk(0)\<close> reads the
  break.
\<close>

definition sbrk :: "heap_state \<Rightarrow> addr \<Rightarrow> addr \<times> heap_state" where
  "sbrk st incr =
     (if uint (os_brk_lo st) \<le> uint (brk st) + sint incr
         \<and> uint (brk st) + sint incr \<le> uint (os_brk_hi st)
      then (brk st, st\<lparr>brk := brk st + incr\<rparr>)
      else (- 1, st))"

definition init :: "heap_state \<Rightarrow> heap_state" where
  "init st0 =
     (if BASE st0 \<noteq> 0 then st0
      else
        let st = st0\<lparr>debug := env_DEBUG st0\<rparr>;
            st = st\<lparr>mem := store32 (mem st) (FreeList st) 0\<rparr>;
            st = st\<lparr>mem := store64 (mem st) (FreeList st + 4) (FreeList st)\<rparr>;
            st = st\<lparr>mem := store64 (mem st) (FreeList st + 12) (FreeList st)\<rparr>;
            (b, st) = sbrk st 0;
            st = st\<lparr>BASE := b, HWM := b\<rparr>
        in st\<lparr>PAGE_SIZE := os_pagesize st\<rparr>)"

section \<open>Chunks\<close>

definition ck_size :: "memory \<Rightarrow> addr \<Rightarrow> info" where
  "ck_size m c = load32 m c AND H_SIZEMASK"

definition ck_payloadSize :: "memory \<Rightarrow> addr \<Rightarrow> info" where
  "ck_payloadSize m c = ucast (scast (ck_size m c) - 2 * H_IS)"

definition ck_footerAddr :: "memory \<Rightarrow> addr \<Rightarrow> addr" where
  "ck_footerAddr m c =
     (let sz = load32 m c AND H_SIZEMASK
      in c + (scast sz - H_IS))"

definition ck_setInfo :: "memory \<Rightarrow> addr \<Rightarrow> info \<Rightarrow> memory" where
  "ck_setInfo m c i =
     (let m = store32 m c i;
          foot = ck_footerAddr m c
      in store32 m foot i)"

text \<open>\<^verbatim>\<open>ck_print\<close> writes one line made of the chunk's address, header and footer.\<close>

definition ck_print :: "heap_state \<Rightarrow> addr \<Rightarrow> heap_state" where
  "ck_print st c =
     st\<lparr>out := out st @
        [Chunk_printed c (load32 (mem st) c) (load32 (mem st) (ck_footerAddr (mem st) c))]\<rparr>"

section \<open>The free list\<close>

definition fl_insert :: "memory \<Rightarrow> addr \<Rightarrow> addr \<Rightarrow> memory" where
  "fl_insert m l c =
     (let m = store64 m (c + 4) l;
          m = store64 m (c + 12) (load64 m (l + 12));
          m = store64 m (load64 m (l + 12) + 4) c
      in store64 m (l + 12) c)"

definition fl_remove :: "memory \<Rightarrow> addr \<Rightarrow> memory" where
  "fl_remove m c =
     (let m = store64 m (load64 m (c + 4) + 12) (load64 m (c + 12))
      in store64 m (load64 m (c + 12) + 4) (load64 m (c + 4)))"

partial_function (option) fl_size_loop :: "memory \<Rightarrow> addr \<Rightarrow> addr \<Rightarrow> info \<Rightarrow> info option" where
  "fl_size_loop m l p n =
     (if p \<noteq> l then fl_size_loop m l (load64 m (p + 12)) (n + 1) else Some n)"

definition fl_size :: "memory \<Rightarrow> addr \<Rightarrow> info option" where
  "fl_size m l = fl_size_loop m l (load64 m (l + 12)) 0"

text \<open>
  \<^verbatim>\<open>fl_print\<close> walks the list from the anchor and prints each chunk it meets; the
  model returns the addresses of the chunks in the order they are printed.
\<close>

partial_function (option) fl_print_loop :: "memory \<Rightarrow> addr \<Rightarrow> addr \<Rightarrow> addr list \<Rightarrow> addr list option" where
  "fl_print_loop m l p acc =
     (if p \<noteq> l then fl_print_loop m l (load64 m (p + 12)) (acc @ [p]) else Some acc)"

definition fl_print :: "heap_state \<Rightarrow> addr list option" where
  "fl_print st0 =
     (let st = init st0
      in case fl_size (mem st) (FreeList st) of
           None \<Rightarrow> None
         | Some s \<Rightarrow> fl_print_loop (mem st) (FreeList st) (load64 (mem st) (FreeList st + 12)) [])"

text \<open>
  The body of the \<^verbatim>\<open>while\<close> loop of \<^verbatim>\<open>fl_findBestFit\<close> ends with
  \<^verbatim>\<open>return bestSoFar;\<close> on every path that does not return earlier, so the loop
  never starts a second iteration: it is an \<open>if\<close>. The assignments to \<^verbatim>\<open>p\<close>,
  \<^verbatim>\<open>excess\<close> and \<^verbatim>\<open>bestExcess\<close> are kept although nothing reads them afterwards.
\<close>

definition fl_findBestFit :: "memory \<Rightarrow> addr \<Rightarrow> info \<Rightarrow> addr" where
  "fl_findBestFit m l targetPayload =
     (let bestSoFar = l;
          p = load64 m (l + 12);
          excess = (0 :: info);
          bestExcess = (0 :: info)
      in if p \<noteq> l then
           (if ck_payloadSize m p <s targetPayload then
              (let p = load64 m (p + 12) in bestSoFar)
            else if ck_payloadSize m p = targetPayload then p
            else
              (let excess = ck_payloadSize m p - targetPayload
               in if bestExcess = 0 \<or> excess <s bestExcess then
                    (let bestExcess = ck_payloadSize m bestSoFar - targetPayload;
                         bestSoFar = p;
                         p = load64 m (p + 12)
                     in bestSoFar)
                  else
                    (let p = load64 m (p + 12) in bestSoFar)))
         else bestSoFar)"

section \<open>Growing the segment\<close>

text \<open>
  \<^verbatim>\<open>grow\<close> does not look at what \<^verbatim>\<open>sbrk\<close> returns: after a refusal it stores
  through \<^verbatim>\<open>(void*)-1\<close> all the same. The model carries these stores out in its
  memory, where addresses wrap around; on the machine the program is killed there.
\<close>

definition grow :: "heap_state \<Rightarrow> info \<Rightarrow> addr \<Rightarrow> addr \<times> heap_state" where
  "grow st0 delta0 l =
     (let st = init st0;
          delta = ucast (scast delta0 + 4 * H_IS) :: info;
          delta = int_div (delta + PAGE_SIZE st - 1) (PAGE_SIZE st) * PAGE_SIZE st;
          (c, st) = sbrk st (scast delta);
          (h, st) = sbrk st 0;
          st = st\<lparr>HWM := h\<rparr>;
          st = st\<lparr>mem := store32 (mem st) c 0\<rparr>;
          end_p = HWM st + (- H_IS);
          st = st\<lparr>mem := store32 (mem st) end_p 0\<rparr>;
          c = c + H_IS;
          sz = ucast (end_p - c) :: info;
          st = st\<lparr>mem := ck_setInfo (mem st) c (sz OR H_FREE)\<rparr>;
          st = st\<lparr>mem := fl_insert (mem st) l c\<rparr>
      in (c, st))"

section \<open>Splitting and merging\<close>

text \<open>The result 0 is the null pointer: the chunk was not split.\<close>

definition ck_split :: "heap_state \<Rightarrow> addr \<Rightarrow> info \<Rightarrow> addr \<times> heap_state" where
  "ck_split st0 c paysize0 =
     (let st = st0\<lparr>out := out st0 @ [Split_entered]\<rparr>
      in if H_MINPAYLOAD \<le> scast paysize0 then
           (let CHUNK_SIZE = ck_size (mem st) c;
                paysize = ucast ((scast paysize0 + H_PS - 1) div H_PS * H_PS) :: info;
                size_c = ucast (scast paysize + 2 * H_IS) :: info;
                size_d = CHUNK_SIZE - size_c
            in if scast size_d < H_MINCHUNK then (0, st)
               else
                 (let st = st\<lparr>mem := ck_setInfo (mem st) c size_c\<rparr>;
                      end_c = ck_footerAddr (mem st) c;
                      d = end_c + H_IS;
                      st = st\<lparr>mem := ck_setInfo (mem st) d (size_d OR H_FREE)\<rparr>;
                      st = st\<lparr>mem := fl_insert (mem st) (FreeList st) d\<rparr>
                  in (d, st)))
         else (0, st))"

text \<open>The last call is \<^verbatim>\<open>fl_insert(sum, FreeList)\<close>, arguments in this order.\<close>

definition ck_merge :: "heap_state \<Rightarrow> addr \<Rightarrow> addr \<Rightarrow> heap_state" where
  "ck_merge st0 c1 c2 =
     (let st = st0\<lparr>mem := fl_remove (mem st0) c1\<rparr>;
          st = st\<lparr>mem := fl_remove (mem st) c2\<rparr>;
          sum = c1;
          totalSize = ck_size (mem st) c1 + ck_size (mem st) c2;
          st = st\<lparr>mem := ck_setInfo (mem st) sum (totalSize OR H_FREE)\<rparr>
      in st\<lparr>mem := fl_insert (mem st) sum (FreeList st)\<rparr>)"

section \<open>Public entry points\<close>

definition hmalloc :: "heap_state \<Rightarrow> info \<Rightarrow> addr \<times> heap_state" where
  "hmalloc st0 size0 =
     (let st = init st0;
          sz = (if scast size0 < H_MINPAYLOAD then ucast H_MINPAYLOAD else size0);
          found = fl_findBestFit (mem st) (FreeList st) sz;
          (found, st) =
             (if load32 (mem st) found = 0 then grow st sz (FreeList st)
              else (found, snd (ck_split st found sz)));
          st = st\<lparr>mem := ck_setInfo (mem st) found (ck_size (mem st) found)\<rparr>;
          st = st\<lparr>mem := fl_remove (mem st) found\<rparr>
      in (found + H_IS, st))"

text \<open>
  In \<^verbatim>\<open>if (!(theChunk->header)&H_FREE)\<close> the operator \<^verbatim>\<open>!\<close> binds tighter than
  \<^verbatim>\<open>&\<close>: the condition is \<^verbatim>\<open>(!header) & H_FREE\<close>.
\<close>

definition hfree :: "heap_state \<Rightarrow> addr \<Rightarrow> heap_state" where
  "hfree st0 m =
     (let st = init st0;
          theChunk = m + (- H_IS)
      in if c_not (load32 (mem st) theChunk) AND H_FREE \<noteq> 0 then
           (let st = ck_print st theChunk;
                sz = ck_size (mem st) theChunk;
                st = st\<lparr>mem := ck_setInfo (mem st) theChunk (sz OR H_FREE)\<rparr>
            in st\<lparr>mem := fl_insert (mem st) (FreeList st) theChunk\<rparr>)
         else st\<lparr>out := out st @ [Cannot_free]\<rparr>)"

definition hcalloc :: "heap_state \<Rightarrow> info \<Rightarrow> info \<Rightarrow> addr \<times> heap_state" where
  "hcalloc st0 count size0 =
     (let st = init st0;
          n = count * size0;
          (q, st) = hmalloc st n
      in (q, st\<lparr>mem := memset (mem st) q 0 (scast n)\<rparr>))"

definition hrealloc :: "heap_state \<Rightarrow> addr \<Rightarrow> info \<Rightarrow> addr \<times> heap_state" where
  "hrealloc st0 p size0 =
     (let st = init st0;
          c = p + (- H_IS)
      in if ck_payloadSize (mem st) c <s size0 then
           (let (q, st) = hmalloc st size0;
                st = st\<lparr>mem := memcpy (mem st) q p (scast size0)\<rparr>;
                st = hfree st p
            in (q, st))
         else (p, st))"

text \<open>\<^verbatim>\<open>hstrdup\<close> has no result when \<^verbatim>\<open>strlen\<close> or \<^verbatim>\<open>strcpy\<close> does not return.\<close>

definition hstrdup :: "heap_state \<Rightarrow> addr \<Rightarrow> (addr \<times> heap_state) option" where
  "hstrdup st0 s =
     (case strlen (mem st0) s of
        None \<Rightarrow> None
      | Some n \<Rightarrow>
          (let (q, st) = hmalloc st0 (word_of_nat n)
           in case strcpy (mem st) q s of
                None \<Rightarrow> None
              | Some m \<Rightarrow> Some (q, st\<lparr>mem := m\<rparr>)))"

section \<open>Layout conditions\<close>

text \<open>
  \<open>apart a n b k\<close>: the \<open>n\<close> bytes at \<open>a\<close> and the \<open>k\<close> bytes at \<open>b\<close> do not
  overlap (for \<open>n\<close> and \<open>k\<close> at least 1). Distances are taken modulo \<open>2^64\<close>, as
  addresses are.
\<close>

definition apart :: "addr \<Rightarrow> addr \<Rightarrow> addr \<Rightarrow> addr \<Rightarrow> bool" where
  "apart a n b k \<longleftrightarrow> n \<le> b - a \<and> k \<le> a - b"

text \<open>
  The number of bytes \<^verbatim>\<open>grow\<close> asks \<^verbatim>\<open>sbrk\<close> for: the two assignments to
  \<^verbatim>\<open>delta\<close> at the top of its body.
\<close>

definition grow_amount :: "info \<Rightarrow> info \<Rightarrow> info" where
  "grow_amount page_size delta0 =
     (let delta = ucast (scast delta0 + 4 * H_IS) :: info
      in int_div (delta + page_size - 1) page_size * page_size)"

section \<open>Sample states\<close>

text \<open>
  A process before its first call into the allocator: the statics are zero, the memory
  is zero, the static \<^verbatim>\<open>FreeList\<close> lies at \<open>0x601080\<close>, the program break is
  \<open>0x1000000\<close>, the operating system lets the break move between \<open>0x1000000\<close>
  and \<open>0x2000000\<close>, and pages have 4096 bytes.
\<close>

definition start :: heap_state where
  "start = \<lparr>mem = (\<lambda>_. 0), BASE = 0, HWM = 0, PAGE_SIZE = 0, debug = False,
     FreeList = 0x601080, brk = 0x1000000, os_brk_lo = 0x1000000, os_brk_hi = 0x2000000,
     os_pagesize = 4096, env_DEBUG = False, out = []\<rparr>"

text \<open>The result of the first allocation of 16 bytes in that process.\<close>

definition first_alloc :: "addr \<times> heap_state" where
  "first_alloc = hmalloc start 16"

text \<open>
  A heap of one page, laid out by hand with the allocator's own primitives: the two
  zero sentinels, free chunks of 24, 72 and 136 bytes (payloads 16, 64 and 128) at
  \<open>0x1000004\<close>, \<open>0x100001C\<close> and \<open>0x1000064\<close>, met in this order on the free list,
  and one chunk in use of 3856 bytes at \<open>0x10000EC\<close> that fills the page.
\<close>

definition sample_heap :: heap_state where
  "sample_heap =
     (let st = init start;
          st = snd (sbrk st 4096);
          st = st\<lparr>HWM := brk st\<rparr>;
          m = store32 (mem st) 0x1000000 0;
          m = store32 m 0x1000FFC 0;
          m = ck_setInfo m 0x10000EC 3856;
          m = fl_insert (ck_setInfo m 0x1000064 (136 OR H_FREE)) (FreeList st) 0x1000064;
          m = fl_insert (ck_setInfo m 0x100001C (72 OR H_FREE)) (FreeList st) 0x100001C;
          m = fl_insert (ck_setInfo m 0x1000004 (24 OR H_FREE)) (FreeList st) 0x1000004
      in st\<lparr>mem := m\<rparr>)"

text \<open>
  The same heap when the page above the break holds stale bytes: the words at
  \<open>0x1001000\<close>, \<open>0x1001004\<close>, \<open>0x1001FF8\<close> and \<open>0x1001FFC\<close>, where the next
  growth by one page puts its sentinels and the tags of its chunk, are
  \<open>0x5A5A5A5A\<close>.
\<close>

definition stale_heap :: heap_state where
  "stale_heap =
     sample_heap\<lparr>mem :=
       store32 (store32 (store32 (store32 (mem sample_heap)
         0x1001000 0x5A5A5A5A) 0x1001004 0x5A5A5A5A) 0x1001FF8 0x5A5A5A5A) 0x1001FFC 0x5A5A5A5A\<rparr>"

section \<open>Reading and writing memory\<close>

lemma store_bytes_frame:
  "length bs \<le> unat (x - a) \<Longrightarrow> store_bytes m a bs x = m x"
proof (induction bs arbitrary: m a)
  case Nil
  then show ?case by simp
next
  case (Cons b bs)
  from Cons.prems have ne: "x - a \<noteq> 0" by auto
  then have xa: "x \<noteq> a" by simp
  have e: "x - (a + 1) = (x - a) - 1" by simp
  have "unat (x - (a + 1)) = unat (x - a) - 1"
    unfolding e by (rule unat_minus_one [OF ne])
  with Cons.prems have "length bs \<le> unat (x - (a + 1))" by simp
  then have "store_bytes (m(a := b)) (a + 1) bs x = (m(a := b)) x"
    by (rule Cons.IH)
  with xa show ?case by simp
qed

lemma store_bytes_hit:
  "i < length bs \<Longrightarrow> length bs \<le> 2 ^ 64 \<Longrightarrow> store_bytes m a bs (a + of_nat i) = bs ! i"
proof (induction bs arbitrary: m a i)
  case Nil
  then show ?case by simp
next
  case (Cons b bs)
  show ?case
  proof (cases i)
    case 0
    have "a - (a + 1) = (-1 :: addr)" by simp
    then have "unat (a - (a + 1)) = 2 ^ 64 - 1"
      by (simp add: unsigned_minus_1_eq_mask mask_eq_exp_minus_1)
    with Cons.prems have "length bs \<le> unat (a - (a + 1))" by simp
    then have "store_bytes (m(a := b)) (a + 1) bs a = (m(a := b)) a"
      by (rule store_bytes_frame)
    with 0 show ?thesis by simp
  next
    case (Suc j)
    with Cons.prems have "j < length bs" "length bs \<le> 2 ^ 64" by simp_all
    then have "store_bytes (m(a := b)) (a + 1) bs ((a + 1) + of_nat j) = bs ! j"
      by (rule Cons.IH)
    with Suc show ?thesis by (simp add: add.assoc)
  qed
qed

lemma cat32_bytes32:
  "cat32 (ucast v) (ucast (drop_bit 8 v)) (ucast (drop_bit 16 v)) (ucast (drop_bit 24 v)) = v"
  (is "?c = v")
proof (rule bit_word_eqI)
  fix n assume n: "n < LENGTH(32)"
  then consider "n < 8" | "8 \<le> n" "n < 16" | "16 \<le> n" "n < 24" | "24 \<le> n" "n < 32"
    by fastforce
  then show "bit ?c n = bit v n"
    by cases (auto simp: cat32_def bit_simps)
qed

lemma cat64_halves: "cat64 (ucast v) (ucast (drop_bit 32 v)) = v"
proof (rule bit_word_eqI)
  fix n assume n: "n < LENGTH(64)"
  then consider "n < 32" | "32 \<le> n" "n < 64"
    by fastforce
  then show "bit (cat64 (ucast v) (ucast (drop_bit 32 v))) n = bit v n"
    by cases (auto simp: cat64_def bit_simps)
qed

lemma store32_frame: "4 \<le> x - a \<Longrightarrow> store32 m a v x = m x"
  unfolding store32_def
  by (rule store_bytes_frame) (simp add: bytes32_def word_le_nat_alt)

lemma load32_store32_same: "load32 (store32 m a v) a = v"
  by (simp add: load32_def store32_def bytes32_def cat32_bytes32)

lemma off_ok:
  fixes a b n j k :: addr
  shows "n \<le> b - a \<Longrightarrow> k \<le> a - b \<Longrightarrow> j < k \<Longrightarrow> n \<le> b + j - a"
  by uint_arith

lemma load32_store32_disj:
  assumes "4 \<le> b - a" "4 \<le> a - b"
  shows "load32 (store32 m a v) b = load32 m b"
proof -
  have "4 \<le> b - a" "4 \<le> b + 1 - a" "4 \<le> b + 2 - a" "4 \<le> b + 3 - a"
    using assms off_ok [OF assms] by simp_all
  then show ?thesis by (simp add: load32_def store32_frame)
qed

lemma store64_frame: "8 \<le> x - a \<Longrightarrow> store64 m a v x = m x"
proof -
  assume a: "8 \<le> x - a"
  then have "4 \<le> x - a" "4 \<le> x - (a + 4)" by uint_arith+
  then show ?thesis by (simp add: store64_def store32_frame)
qed

lemma load64_store64_same: "load64 (store64 m a v) a = v"
proof -
  have "4 \<le> a - (a + 4)" "4 \<le> a + 4 - a" by simp_all
  then show ?thesis
    by (simp add: load64_def store64_def load32_store32_same load32_store32_disj cat64_halves)
qed

lemma load32_store64_disj:
  assumes "8 \<le> b - a" "4 \<le> a - b"
  shows "load32 (store64 m a v) b = load32 m b"
proof -
  have "4 \<le> b - a" "4 \<le> b - (a + 4)" "4 \<le> a + 4 - b"
    using assms by uint_arith+
  with assms show ?thesis by (simp add: store64_def load32_store32_disj)
qed

lemma load64_store32_disj:
  assumes "4 \<le> b - a" "8 \<le> a - b"
  shows "load64 (store32 m a v) b = load64 m b"
proof -
  have "4 \<le> a - b" "4 \<le> b + 4 - a" "4 \<le> a - (b + 4)"
    using assms by uint_arith+
  with assms show ?thesis by (simp add: load64_def load32_store32_disj)
qed

lemma load64_store64_disj:
  assumes "8 \<le> b - a" "8 \<le> a - b"
  shows "load64 (store64 m a v) b = load64 m b"
proof -
  have "4 \<le> b - a" "4 \<le> b - (a + 4)" "8 \<le> a + 4 - b"
    using assms by uint_arith+
  with assms show ?thesis by (simp add: store64_def load64_store32_disj)
qed

lemmas ls_simps = load32_store32_same load64_store64_same load32_store32_disj
  load32_store64_disj load64_store32_disj load64_store64_disj

lemmas H_defs = H_PS_def H_IS_def H_MINPAYLOAD_def H_MINCHUNK_def H_FREE_def H_SIZEMASK_def

lemmas eval_defs = hmalloc_def init_def sbrk_def Let_def grow_def H_defs int_div_def
  fl_findBestFit_def ck_setInfo_def ck_footerAddr_def ck_size_def ck_payloadSize_def
  fl_insert_def fl_remove_def hfree_def c_not_def ck_split_def ck_merge_def fl_size_def
  fl_print_def

section \<open>Integer conversions\<close>

lemma ucast_scast_info: "(ucast (scast (x::info) :: addr) :: info) = x"
  by (rule bit_word_eqI) (auto simp: bit_simps)

lemma ucast_add64: "(ucast (a + b :: addr) :: info) = ucast a + ucast b"
  apply (simp add: word_uint_eq_iff unsigned_ucast_eq uint_word_ariths take_bit_eq_mod mod_simps)
  apply (simp add: mod_mod_cancel)
  done

lemma ucast_sub64: "(ucast (a - b :: addr) :: info) = ucast a - ucast b"
proof -
  have "ucast ((a - b) + b) = (ucast (a - b) :: info) + ucast b"
    by (rule ucast_add64)
  then show ?thesis by simp
qed

lemma sint_in_range: "- (2 ^ 31) \<le> sint (x::info) \<and> sint x < 2 ^ 31"
  using sint_ge [of x] sint_lt [of x] by simp

lemma aligned_cases:
  fixes s :: addr
  assumes "s AND 7 = 0"
  shows "s = 0 \<or> (8 \<le> s \<and> s \<le> 18446744073709551608)"
proof -
  have "s AND mask 3 = 0" using assms by (simp add: mask_eq_exp_minus_1)
  then have d: "8 dvd uint s" using and_mask_dvd [of 3 s] by simp
  show ?thesis
  proof (cases "s = 0")
    case True then show ?thesis by simp
  next
    case False
    then have "uint s \<noteq> 0" by (simp add: uint_0_iff)
    moreover have "0 \<le> uint s" "uint s < 18446744073709551616" using uint_lt2p [of s] by simp_all
    ultimately have "8 \<le> uint s" "uint s \<le> 18446744073709551608" using d by presburger+
    then have "8 \<le> s" "s \<le> 18446744073709551608" by (simp_all add: word_le_def)
    then show ?thesis by simp
  qed
qed

lemma scast_size_aligned: "(scast (i AND NOT 7 :: info) :: addr) AND 7 = 0"
proof -
  have a: "(7 :: info) = mask 3" and b: "(7 :: addr) = mask 3"
    by (simp_all add: mask_eq_exp_minus_1)
  show ?thesis unfolding a b
    by (rule bit_word_eqI) (auto simp: bit_simps)
qed


lemma aligned_tag_apart:
  fixes s :: addr
  assumes "s AND 7 = 0"
  shows "4 \<le> s - 4" "4 \<le> 4 - s"
proof -
  consider "s = 0" | "8 \<le> s" "s \<le> 18446744073709551608"
    using aligned_cases [OF assms] by blast
  then have "4 \<le> s - 4 \<and> 4 \<le> 4 - s"
  proof cases
    case 1
    then show ?thesis by simp
  next
    case 2
    then have "4 \<le> s - 4" by uint_arith
    moreover from 2 have "4 \<le> 4 - s" by uint_arith
    ultimately show ?thesis by simp
  qed
  then show "4 \<le> s - 4" "4 \<le> 4 - s" by simp_all
qed

lemma sint_add_range:
  "- (2 ^ 31) \<le> sint (x::info) + sint y \<Longrightarrow> sint x + sint y < 2 ^ 31 \<Longrightarrow>
   sint (x + y) = sint x + sint y"
  by (simp add: sint_word_ariths signed_take_bit_int_eq_self)

lemma sint_sub_range:
  "- (2 ^ 31) \<le> sint (x::info) - sint y \<Longrightarrow> sint x - sint y < 2 ^ 31 \<Longrightarrow>
   sint (x - y) = sint x - sint y"
  by (simp add: sint_word_ariths signed_take_bit_int_eq_self)

lemma sint_mult_range:
  "- (2 ^ 31) \<le> sint (x::info) * sint y \<Longrightarrow> sint x * sint y < 2 ^ 31 \<Longrightarrow>
   sint (x * y) = sint x * sint y"
  by (simp add: sint_word_ariths signed_take_bit_int_eq_self)

lemma sint_of_int_range:
  "- (2 ^ 31) \<le> k \<Longrightarrow> k < 2 ^ 31 \<Longrightarrow> sint (word_of_int k :: info) = k"
  by (simp add: signed_of_int signed_take_bit_int_eq_self)


section \<open>Tags, links and the grown segment\<close>

lemma apart_sym: "apart a n b k \<Longrightarrow> apart b k a n"
  by (simp add: apart_def)

lemma load32_store32_apart: "apart a 4 b 4 \<Longrightarrow> load32 (store32 m a v) b = load32 m b"
  by (simp add: apart_def load32_store32_disj)

lemma load32_store64_apart: "apart a 8 b 4 \<Longrightarrow> load32 (store64 m a v) b = load32 m b"
  by (simp add: apart_def load32_store64_disj)

lemma load64_store32_apart: "apart a 4 b 8 \<Longrightarrow> load64 (store32 m a v) b = load64 m b"
  by (simp add: apart_def load64_store32_disj)

lemma load64_store64_apart: "apart a 8 b 8 \<Longrightarrow> load64 (store64 m a v) b = load64 m b"
  by (simp add: apart_def load64_store64_disj)

lemmas apart_simps = load32_store32_same load64_store64_same load32_store32_apart
  load32_store64_apart load64_store32_apart load64_store64_apart

lemma ck_setInfo_eq:
  "ck_setInfo m c i = store32 (store32 m c i) (c + (scast (i AND NOT 7) - 4)) i"
  by (simp add: ck_setInfo_def ck_footerAddr_def H_defs load32_store32_same)

lemma tag_apart: "apart (c + (scast (i AND NOT 7 :: info) - 4)) 4 c 4"
  using aligned_tag_apart [OF scast_size_aligned [of i]]
  by (simp add: apart_def)

lemma ck_setInfo_header: "load32 (ck_setInfo m c i) c = i"
  using tag_apart [of c i]
  by (simp add: ck_setInfo_eq load32_store32_apart load32_store32_same)

lemma ck_setInfo_footer: "load32 (ck_setInfo m c i) (c + (scast (i AND NOT 7) - 4)) = i"
  by (simp add: ck_setInfo_eq load32_store32_same)

lemma ck_footerAddr_setInfo:
  "ck_footerAddr (ck_setInfo m c i) c = c + (scast (i AND NOT 7) - 4)"
  by (simp add: ck_footerAddr_def ck_setInfo_header H_defs)

lemma ck_size_setInfo: "ck_size (ck_setInfo m c i) c = i AND NOT 7"
  by (simp add: ck_size_def ck_setInfo_header H_defs)

lemma ck_setInfo_load32:
  "apart c 4 b 4 \<Longrightarrow> apart (c + (scast (i AND NOT 7) - 4)) 4 b 4 \<Longrightarrow>
   load32 (ck_setInfo m c i) b = load32 m b"
  by (simp add: ck_setInfo_eq load32_store32_apart)

lemma ck_setInfo_load64:
  "apart c 4 b 8 \<Longrightarrow> apart (c + (scast (i AND NOT 7) - 4)) 4 b 8 \<Longrightarrow>
   load64 (ck_setInfo m c i) b = load64 m b"
  by (simp add: ck_setInfo_eq load64_store32_apart)

lemma sdiv_nonneg: "0 \<le> (x::int) \<Longrightarrow> 0 < p \<Longrightarrow> x sdiv p = x div p"
  by (cases "x = 0") (simp_all add: signed_divide_int_def)

lemma roundup_bounds:
  fixes x p :: int
  assumes "0 \<le> x" "0 < p"
  shows "x \<le> (x + p - 1) div p * p" "(x + p - 1) div p * p < x + p"
        "p dvd (x + p - 1) div p * p" "0 \<le> (x + p - 1) div p" 
proof -
  have m: "(x + p - 1) div p * p = (x + p - 1) - (x + p - 1) mod p"
    by (simp add: algebra_simps minus_mod_eq_mult_div)
  have r: "0 \<le> (x + p - 1) mod p" "(x + p - 1) mod p < p"
    using assms by simp_all
  show "x \<le> (x + p - 1) div p * p" using m r by linarith
  show "(x + p - 1) div p * p < x + p" using m r by linarith
  show "p dvd (x + p - 1) div p * p" by simp
  show "0 \<le> (x + p - 1) div p" using assms by (simp add: pos_imp_zdiv_nonneg_iff)
qed

lemma grow_amount_sint:
  assumes p: "0 < sint P" and d: "0 \<le> sint d0" and r: "sint d0 + 16 + sint P < 2 ^ 31"
  shows "sint (grow_amount P d0) = (sint d0 + 16 + sint P - 1) div sint P * sint P"
proof -
  let ?x = "sint d0 + 16"
  let ?q = "(?x + sint P - 1) div sint P"
  have x0: "0 \<le> ?x" using d by simp
  note rb = roundup_bounds [OF x0 p]
  have s16: "sint (16 :: info) = 16" by simp
  have s1: "sint (1 :: info) = 1" by simp
  have a: "sint (d0 + 16) = ?x"
    using d r p by (subst sint_add_range) (simp_all add: s16)
  have b: "sint (d0 + 16 + P) = ?x + sint P"
    using d r p by (subst sint_add_range) (simp_all add: a)
  have c: "sint (d0 + 16 + P - 1) = ?x + sint P - 1"
    using d r p by (subst sint_sub_range) (simp_all add: b)
  have q: "sint (word_of_int ?q :: info) = ?q"
  proof (rule sint_of_int_range)
    show "- (2 ^ 31) \<le> ?q" using rb(4) by simp
    have "?q * 1 \<le> ?q * sint P" using rb(4) p by (intro mult_left_mono) simp_all
    then show "?q < 2 ^ 31" using rb(2) r by simp
  qed
  have "grow_amount P d0 = word_of_int ?q * P"
    using d p c by (simp add: grow_amount_def H_defs int_div_def ucast_add64 ucast_scast_info
        sdiv_nonneg)
  moreover have "sint (word_of_int ?q * P) = ?q * sint P"
  proof -
    have "0 \<le> ?q * sint P" using rb(4) p by (intro mult_nonneg_nonneg) simp_all
    then have 1: "- (2 ^ 31) \<le> ?q * sint P" by (rule order_trans [rotated]) simp
    have 2: "?q * sint P < 2 ^ 31" using rb(2) r by simp
    have "sint (word_of_int ?q * P) = sint (word_of_int ?q :: info) * sint P"
      by (rule sint_mult_range; unfold q) (fact 1, fact 2)
    then show ?thesis unfolding q .
  qed
  ultimately show ?thesis by simp
qed

lemma aligned_mult:
  fixes P q :: info
  assumes "P AND 7 = 0"
  shows "(q * P) AND 7 = 0"
proof -
  have "P AND mask 3 = 0" using assms by (simp add: mask_eq_exp_minus_1)
  then have "8 dvd uint P" using and_mask_dvd [of 3 P] by simp
  then have "8 dvd (uint q * uint P) mod 4294967296"
    by (simp add: dvd_mod)
  then have "2 ^ 3 dvd uint (q * P)" by (simp add: uint_word_ariths)
  then have "(q * P) AND mask 3 = 0" by (simp only: and_mask_dvd)
  then show ?thesis by (simp add: mask_eq_exp_minus_1)
qed

lemma grow_amount_aligned: "P AND 7 = 0 \<Longrightarrow> grow_amount P d0 AND 7 = 0"
  by (simp add: grow_amount_def Let_def aligned_mult)

lemma sint_num_range: "- 2147483648 \<le> sint (x::info)" "sint x < 2147483648"
  using sint_in_range [of x] by simp_all

lemma sint_scast64: "sint (scast (x::info) :: addr) = sint x"
proof -
  have "- 9223372036854775808 \<le> sint x" "sint x < 9223372036854775808"
    using sint_num_range [of x] by linarith+
  then have "- (2 ^ 63) \<le> sint x" "sint x < 2 ^ 63" by simp_all
  then have "signed_take_bit 63 (sint x) = sint x"
    by (rule signed_take_bit_int_eq_self)
  then show ?thesis by (simp only: signed_scast_eq) simp
qed

lemma uint_scast_nonneg: "0 \<le> sint (x::info) \<Longrightarrow> uint (scast x :: addr) = sint x"
proof -
  assume a: "0 \<le> sint x"
  have "sint x < 18446744073709551616" using sint_num_range [of x] by linarith
  then have b: "sint x < 2 ^ LENGTH(64)" by simp
  have "uint (scast x :: addr) = take_bit LENGTH(64) (sint (scast x :: addr))"
    by (rule uint_sint)
  also have "\<dots> = take_bit LENGTH(64) (sint x)" by (simp only: sint_scast64)
  also have "\<dots> = sint x" using a b by (rule take_bit_int_eq_self)
  finally show ?thesis .
qed


lemma scast_sub8:
  fixes D :: info
  assumes "8 \<le> sint D"
  shows "(scast (D - 8) :: addr) = scast D - 8"
proof -
  have s8: "sint (8 :: info) = 8" by simp
  have "- 2147483648 \<le> sint D - 8" "sint D - 8 < 2147483648"
    using assms sint_num_range [of D] by linarith+
  then have r: "- (2 ^ 31) \<le> sint D - sint (8 :: info)" "sint D - sint (8 :: info) < 2 ^ 31"
    unfolding s8 by simp_all
  have "sint (D - 8) = sint D - 8" using sint_sub_range [OF r] unfolding s8 .
  then have "(scast (D - 8) :: addr) = word_of_int (sint D - 8)" by (simp only: scast_eq)
  also have "\<dots> = word_of_int (sint D) - 8" by (simp only: of_int_diff of_int_numeral)
  also have "\<dots> = scast D - 8" by (simp only: scast_eq)
  finally show ?thesis .
qed


lemma scast_diff:
  fixes x y :: info
  assumes "- 2147483648 \<le> sint x - sint y" "sint x - sint y < 2147483648"
  shows "(scast (x - y) :: addr) = scast x - scast y"
proof -
  from assms have r: "- (2 ^ 31) \<le> sint x - sint y" "sint x - sint y < 2 ^ 31"
    by simp_all
  have "sint (x - y) = sint x - sint y" by (rule sint_sub_range [OF r])
  then have "(scast (x - y) :: addr) = word_of_int (sint x - sint y)" by (simp only: scast_eq)
  also have "\<dots> = word_of_int (sint x) - word_of_int (sint y)" by (simp only: of_int_diff)
  also have "\<dots> = scast x - scast y" by (simp only: scast_eq)
  finally show ?thesis .
qed

lemma scast_sum:
  fixes x y :: info
  assumes "- 2147483648 \<le> sint x + sint y" "sint x + sint y < 2147483648"
  shows "(scast (x + y) :: addr) = scast x + scast y"
proof -
  from assms have r: "- (2 ^ 31) \<le> sint x + sint y" "sint x + sint y < 2 ^ 31"
    by simp_all
  have "sint (x + y) = sint x + sint y" by (rule sint_add_range [OF r])
  then have "(scast (x + y) :: addr) = word_of_int (sint x + sint y)" by (simp only: scast_eq)
  also have "\<dots> = word_of_int (sint x) + word_of_int (sint y)" by (simp only: of_int_add)
  also have "\<dots> = scast x + scast y" by (simp only: scast_eq)
  finally show ?thesis .
qed

lemma scast_le_mono:
  fixes x y :: info
  assumes "0 \<le> sint x" "sint x \<le> sint y"
  shows "(scast x :: addr) \<le> scast y"
proof -
  have "uint (scast x :: addr) = sint x" using assms(1) by (rule uint_scast_nonneg)
  moreover have "uint (scast y :: addr) = sint y" using assms by (intro uint_scast_nonneg) linarith
  ultimately show ?thesis using assms(2) by (simp only: word_le_def)
qed

lemma scast_upper: "0 \<le> sint (x::info) \<Longrightarrow> (scast x :: addr) \<le> 2147483647"
proof -
  assume a: "0 \<le> sint x"
  have "uint (scast x :: addr) = sint x" using a by (rule uint_scast_nonneg)
  moreover have "uint (2147483647 :: addr) = 2147483647" by simp
  moreover have "sint x \<le> 2147483647" using sint_num_range [of x] by linarith
  ultimately show ?thesis by (simp only: word_le_def)
qed

lemma low_bits_clear:
  fixes D :: info
  assumes "D AND 7 = 0" "n < 3"
  shows "\<not> bit D n"
proof -
  have "D AND mask 3 = 0" using assms(1) by (simp add: mask_eq_exp_minus_1)
  then have "bit (D AND mask 3) n = False" by simp
  then show ?thesis using assms(2) by (simp add: bit_and_iff bit_mask_iff)
qed

lemma aligned_sub8:
  fixes D :: info
  assumes "D AND 7 = 0"
  shows "(D - 8) AND 7 = 0"
proof -
  have "D AND mask 3 = 0" using assms by (simp add: mask_eq_exp_minus_1)
  then have "8 dvd uint D" using and_mask_dvd [of 3 D] by simp
  then have "8 dvd (uint D - 8) mod 4294967296" by (simp add: dvd_mod)
  then have "2 ^ 3 dvd uint (D - 8)" by (simp add: uint_word_ariths)
  then have z: "(D - 8) AND mask 3 = 0" by (simp only: and_mask_dvd)
  then show ?thesis by (simp add: mask_eq_exp_minus_1)
qed

lemma aligned_or_flag:
  fixes T :: info
  assumes "T AND 7 = 0"
  shows "(T OR 1) AND NOT 7 = T" "(T OR 1) AND 1 = 1" "T AND NOT 7 = T"
proof -
  have a: "(7 :: info) = mask 3" by (simp add: mask_eq_exp_minus_1)
  note lb = low_bits_clear [OF assms]
  show "(T OR 1) AND NOT 7 = T" unfolding a
    by (rule bit_word_eqI) (use lb in \<open>auto simp: bit_simps\<close>)
  show "(T OR 1) AND 1 = 1"
    by (rule bit_word_eqI) (auto simp: bit_simps)
  show "T AND NOT 7 = T" unfolding a
    by (rule bit_word_eqI) (use lb in \<open>auto simp: bit_simps\<close>)
qed

section \<open>Ranges that do not overlap\<close>

lemma uint_sub_mod: "uint (x - y :: addr) = (uint x - uint y) mod 18446744073709551616"
  by (simp add: uint_word_ariths)

lemma apart_int:
  "apart a n b k \<longleftrightarrow>
     uint n \<le> (uint b - uint a) mod 18446744073709551616 \<and>
     uint k \<le> (uint a - uint b) mod 18446744073709551616"
  by (simp add: apart_def word_le_def uint_sub_mod)

lemma uint_shift:
  fixes a :: addr
  assumes "0 \<le> i" "i < 18446744073709551616"
  shows "uint (a + word_of_int i) = (uint a + i) mod 18446744073709551616"
  using assms by (simp add: uint_word_ariths uint_word_of_int mod_simps)

lemma mod_diff_cases:
  fixes x y :: int
  assumes "0 \<le> x" "x < 18446744073709551616" "0 \<le> y" "y < 18446744073709551616"
  shows "(x - y) mod 18446744073709551616 = (if y \<le> x then x - y else x - y + 18446744073709551616)"
proof (cases "y \<le> x")
  case True
  then have "0 \<le> x - y" "x - y < 18446744073709551616" using assms by linarith+
  then show ?thesis using True by (simp add: mod_pos_pos_trivial)
next
  case False
  then have r: "0 \<le> x - y + 18446744073709551616"
    "x - y + 18446744073709551616 < 18446744073709551616"
    using assms by linarith+
  have "(x - y) mod 18446744073709551616 = (x - y + 18446744073709551616) mod 18446744073709551616"
    by (simp only: mod_add_self2)
  also have "\<dots> = x - y + 18446744073709551616"
    using r by (rule mod_pos_pos_trivial)
  finally show ?thesis using False by simp
qed


lemma apart_cases:
  "apart a n b k \<longleftrightarrow>
     (uint a \<le> uint b \<and> uint n \<le> uint b - uint a \<and>
        (uint a = uint b \<and> uint k = 0 \<or>
         uint a < uint b \<and> uint k \<le> uint a - uint b + 18446744073709551616)) \<or>
     (uint b < uint a \<and> uint k \<le> uint a - uint b \<and>
        uint n \<le> uint b - uint a + 18446744073709551616)"
proof -
  have ra: "0 \<le> uint a" "uint a < 18446744073709551616" using uint_lt2p [of a] by simp_all
  have rb: "0 \<le> uint b" "uint b < 18446744073709551616" using uint_lt2p [of b] by simp_all
  have rk: "0 \<le> uint k" by simp
  show ?thesis
    unfolding apart_int mod_diff_cases [OF rb ra] mod_diff_cases [OF ra rb]
    using rk by auto
qed


lemma mod_window:
  fixes z :: int
  assumes "0 \<le> z" "z < 18446744073709551616"
  shows "z mod 18446744073709551616 = z"
  using assms by (rule mod_pos_pos_trivial)

lemma neg_mod_window:
  fixes d :: int
  assumes "0 < d" "d < 18446744073709551616"
  shows "(- d) mod 18446744073709551616 = 18446744073709551616 - d"
proof -
  have "(- d) mod 18446744073709551616 = (- d + 18446744073709551616) mod 18446744073709551616"
    by (simp only: mod_add_self2)
  also have "\<dots> = - d + 18446744073709551616"
    using assms by (intro mod_pos_pos_trivial) linarith+
  finally show ?thesis by simp
qed

lemma apart_sub_int:
  assumes A: "apart a n b k"
    and i: "0 \<le> i" "0 < n'" "i + n' \<le> uint n"
    and j: "0 \<le> j" "0 < k'" "j + k' \<le> uint k"
  shows "apart (a + word_of_int i) (word_of_int n') (b + word_of_int j) (word_of_int k')"
proof -
  let ?M = "18446744073709551616 :: int"
  define d where "d = (uint b - uint a) mod ?M"
  have d_range: "0 \<le> d" "d < ?M" by (simp_all add: d_def)
  have n_le: "uint n \<le> d" using A by (simp add: apart_int d_def)
  have d_pos: "0 < d" using n_le i by linarith
  have "(uint a - uint b) mod ?M = (- (uint b - uint a)) mod ?M" by simp
  also have "\<dots> = (- d) mod ?M" unfolding d_def by (simp only: mod_minus_eq)
  also have "\<dots> = ?M - d" using d_pos d_range(2) by (rule neg_mod_window)
  finally have e: "(uint a - uint b) mod ?M = ?M - d" .
  have k_le: "uint k \<le> ?M - d" using A by (simp add: apart_int e)
  have un: "uint n < ?M" using uint_lt2p [of n] by simp
  have uk: "uint k < ?M" using uint_lt2p [of k] by simp
  have wi: "uint (word_of_int i :: addr) = i" using i un by (simp add: uint_word_of_int mod_window)
  have wj: "uint (word_of_int j :: addr) = j" using j uk by (simp add: uint_word_of_int mod_window)
  have wn: "uint (word_of_int n' :: addr) = n'" using i un by (simp add: uint_word_of_int mod_window)
  have wk: "uint (word_of_int k' :: addr) = k'" using j uk by (simp add: uint_word_of_int mod_window)
  have "uint ((b + word_of_int j) - (a + word_of_int i)) = (uint b + j - (uint a + i)) mod ?M"
    by (simp add: uint_word_ariths wi wj mod_simps)
  also have "uint b + j - (uint a + i) = (uint b - uint a) + (j - i)" by simp
  also have "((uint b - uint a) + (j - i)) mod ?M = (d + (j - i)) mod ?M"
    unfolding d_def by (simp only: mod_add_left_eq)
  also have "\<dots> = d + (j - i)"
    using d_range n_le k_le i j by (intro mod_window) linarith+
  finally have fwd: "uint ((b + word_of_int j) - (a + word_of_int i)) = d + (j - i)" .
  have "uint ((a + word_of_int i) - (b + word_of_int j)) = (uint a + i - (uint b + j)) mod ?M"
    by (simp add: uint_word_ariths wi wj mod_simps)
  also have "uint a + i - (uint b + j) = (uint a - uint b) + (i - j)" by simp
  also have "((uint a - uint b) + (i - j)) mod ?M = (?M - d + (i - j)) mod ?M"
    unfolding e [symmetric] by (simp only: mod_add_left_eq)
  also have "\<dots> = ?M - d + (i - j)"
    using d_range n_le k_le i j by (intro mod_window) linarith+
  finally have bwd: "uint ((a + word_of_int i) - (b + word_of_int j)) = ?M - d + (i - j)" .
  show ?thesis
    unfolding apart_def word_le_def fwd bwd wn wk
    using n_le k_le i j by linarith
qed


lemma uint_woi64: "uint (word_of_int z :: addr) = z mod 18446744073709551616"
  by (simp add: uint_word_of_int)

lemma apart_within:
  assumes "0 \<le> i" "0 < n" "i + n \<le> j" "0 < k" "j + k \<le> 18446744073709551616"
  shows "apart (c + word_of_int i) (word_of_int n) (c + word_of_int j) (word_of_int k)"
proof -
  let ?M = "18446744073709551616 :: int"
  have jr: "0 < j" "j < ?M" using assms by linarith+
  have uj: "uint (word_of_int j :: addr) = j"
    using jr by (simp add: uint_word_of_int mod_window)
  have "(word_of_int (?M - j) :: addr) = word_of_int ?M - word_of_int j"
    by (simp only: of_int_diff)
  also have "(word_of_int ?M :: addr) = 0" by simp
  finally have neg: "(word_of_int (?M - j) :: addr) = - word_of_int j" by simp
  have "uint (word_of_int (?M - j) :: addr) = (?M - j) mod ?M"
    by (rule uint_woi64)
  also have "\<dots> = ?M - j" using jr by (intro mod_window) linarith+
  finally have ur: "uint (word_of_int (?M - j) :: addr) = ?M - j" .
  have base: "apart c (word_of_int j) (c + word_of_int j) (word_of_int (?M - j))"
    unfolding apart_def neg by simp
  have "apart (c + word_of_int i) (word_of_int n) (c + word_of_int j + word_of_int 0)
          (word_of_int k)"
  proof (rule apart_sub_int [OF base])
    show "0 \<le> i" "0 < n" "0 < k" by fact+
    show "i + n \<le> uint (word_of_int j :: addr)" unfolding uj by fact
    show "(0::int) \<le> 0" by simp
    show "0 + k \<le> uint (word_of_int (?M - j) :: addr)" unfolding ur using assms by linarith
  qed
  then show ?thesis by simp
qed

section \<open>The memory of a freshly grown segment\<close>

lemma grown_memory:
  fixes m :: memory and b F :: addr and D :: info
  defines "s \<equiv> scast D"
  defines "Y \<equiv> load64 m (F + 12)"
  defines "M \<equiv> fl_insert (ck_setInfo (store32 (store32 m b 0) (b + s - 4) 0) (b + 4)
                ((D - 8) OR 1)) F (b + 4)"
  defines "M2 \<equiv> fl_remove (ck_setInfo M (b + 4) (ck_size M (b + 4))) (b + 4)"
  assumes al: "D AND 7 = 0" and big: "32 \<le> sint D"
      and sepF: "apart F 20 b s" and sepY: "apart (Y + 4) 8 b s"
      and sepYF: "apart (Y + 4) 8 (F + 12) 8"
  shows "load32 M b = 0" "load32 M (b + s - 4) = 0" "load32 M (b + 4) = (D - 8) OR 1" "load32 M (b + s - 8) = (D - 8) OR 1" "load64 M (8 + b) = F" "load64 M (16 + b) = Y" "load64 M (Y + 4) = b + 4" "load64 M (F + 12) = b + 4" "load32 M2 b = 0" "load32 M2 (b + s - 4) = 0" "load32 M2 (b + 4) = D - 8" "load32 M2 (b + s - 8) = D - 8" "load64 M2 (F + 12) = Y" "load64 M2 (Y + 4) = F"
proof -
  define S where "S = sint D"
  have Sb: "32 \<le> S" "S < 2147483648" using big sint_num_range [of D] by (simp_all add: S_def)
  have sS: "s = word_of_int S" by (simp only: s_def S_def scast_eq)
  have us: "uint s = S" unfolding s_def S_def using big by (intro uint_scast_nonneg) linarith
  have f1: "apart (b) 4 (b + s - 4) 4"
  proof -
    have "apart (b + word_of_int (0)) (word_of_int 4) (b + word_of_int (S - 4)) (word_of_int 4)"
      by (rule apart_within) (use Sb in linarith)+
    then show ?thesis by (simp add: sS add_diff_eq add.commute)
  qed
  have f2: "apart (b) 4 (b + 4) 4"
  proof -
    have "apart (b + word_of_int (0)) (word_of_int 4) (b + word_of_int (4)) (word_of_int 4)"
      by (rule apart_within) (use Sb in linarith)+
    then show ?thesis by (simp add: sS add_diff_eq add.commute)
  qed
  have f3: "apart (b) 4 (b + s - 8) 4"
  proof -
    have "apart (b + word_of_int (0)) (word_of_int 4) (b + word_of_int (S - 8)) (word_of_int 4)"
      by (rule apart_within) (use Sb in linarith)+
    then show ?thesis by (simp add: sS add_diff_eq add.commute)
  qed
  have f4: "apart (b) 4 (8 + b) 8"
  proof -
    have "apart (b + word_of_int (0)) (word_of_int 4) (b + word_of_int (8)) (word_of_int 8)"
      by (rule apart_within) (use Sb in linarith)+
    then show ?thesis by (simp add: sS add_diff_eq add.commute)
  qed
  have f5: "apart (b) 4 (16 + b) 8"
  proof -
    have "apart (b + word_of_int (0)) (word_of_int 4) (b + word_of_int (16)) (word_of_int 8)"
      by (rule apart_within) (use Sb in linarith)+
    then show ?thesis by (simp add: sS add_diff_eq add.commute)
  qed
  have f6: "apart (b) 4 (Y + 4) 8"
  proof -
    have "apart ((Y + 4) + word_of_int (0)) (word_of_int 8) (b + word_of_int (0)) (word_of_int 4)"
      by (rule apart_sub_int [OF sepY]) (use Sb in \<open>simp_all add: us\<close>)
    then show ?thesis by (simp add: sS apart_sym add_diff_eq add.commute)
  qed
  have f7: "apart (b) 4 (F + 12) 8"
  proof -
    have "apart (F + word_of_int (12)) (word_of_int 8) (b + word_of_int (0)) (word_of_int 4)"
      by (rule apart_sub_int [OF sepF]) (use Sb in \<open>simp_all add: us\<close>)
    then show ?thesis by (simp add: sS apart_sym add_diff_eq add.commute)
  qed
  have f8: "apart (b + s - 4) 4 (b) 4"
  proof -
    have "apart (b + word_of_int (0)) (word_of_int 4) (b + word_of_int (S - 4)) (word_of_int 4)"
      by (rule apart_within) (use Sb in linarith)+
    then show ?thesis by (simp add: sS apart_sym add_diff_eq add.commute)
  qed
  have f9: "apart (b + s - 4) 4 (b + 4) 4"
  proof -
    have "apart (b + word_of_int (4)) (word_of_int 4) (b + word_of_int (S - 4)) (word_of_int 4)"
      by (rule apart_within) (use Sb in linarith)+
    then show ?thesis by (simp add: sS apart_sym add_diff_eq add.commute)
  qed
  have f10: "apart (b + s - 4) 4 (b + s - 8) 4"
  proof -
    have "apart (b + word_of_int (S - 8)) (word_of_int 4) (b + word_of_int (S - 4)) (word_of_int 4)"
      by (rule apart_within) (use Sb in linarith)+
    then show ?thesis by (simp add: sS apart_sym add_diff_eq add.commute)
  qed
  have f11: "apart (b + s - 4) 4 (8 + b) 8"
  proof -
    have "apart (b + word_of_int (8)) (word_of_int 8) (b + word_of_int (S - 4)) (word_of_int 4)"
      by (rule apart_within) (use Sb in linarith)+
    then show ?thesis by (simp add: sS apart_sym add_diff_eq add.commute)
  qed
  have f12: "apart (b + s - 4) 4 (16 + b) 8"
  proof -
    have "apart (b + word_of_int (16)) (word_of_int 8) (b + word_of_int (S - 4)) (word_of_int 4)"
      by (rule apart_within) (use Sb in linarith)+
    then show ?thesis by (simp add: sS apart_sym add_diff_eq add.commute)
  qed
  have f13: "apart (b + s - 4) 4 (Y + 4) 8"
  proof -
    have "apart ((Y + 4) + word_of_int (0)) (word_of_int 8) (b + word_of_int (S - 4)) (word_of_int 4)"
      by (rule apart_sub_int [OF sepY]) (use Sb in \<open>simp_all add: us\<close>)
    then show ?thesis by (simp add: sS apart_sym add_diff_eq add.commute)
  qed
  have f14: "apart (b + s - 4) 4 (F + 12) 8"
  proof -
    have "apart (F + word_of_int (12)) (word_of_int 8) (b + word_of_int (S - 4)) (word_of_int 4)"
      by (rule apart_sub_int [OF sepF]) (use Sb in \<open>simp_all add: us\<close>)
    then show ?thesis by (simp add: sS apart_sym add_diff_eq add.commute)
  qed
  have f15: "apart (b + 4) 4 (b) 4"
  proof -
    have "apart (b + word_of_int (0)) (word_of_int 4) (b + word_of_int (4)) (word_of_int 4)"
      by (rule apart_within) (use Sb in linarith)+
    then show ?thesis by (simp add: sS apart_sym add_diff_eq add.commute)
  qed
  have f16: "apart (b + 4) 4 (b + s - 4) 4"
  proof -
    have "apart (b + word_of_int (4)) (word_of_int 4) (b + word_of_int (S - 4)) (word_of_int 4)"
      by (rule apart_within) (use Sb in linarith)+
    then show ?thesis by (simp add: sS add_diff_eq add.commute)
  qed
  have f17: "apart (b + 4) 4 (b + s - 8) 4"
  proof -
    have "apart (b + word_of_int (4)) (word_of_int 4) (b + word_of_int (S - 8)) (word_of_int 4)"
      by (rule apart_within) (use Sb in linarith)+
    then show ?thesis by (simp add: sS add_diff_eq add.commute)
  qed
  have f18: "apart (b + 4) 4 (8 + b) 8"
  proof -
    have "apart (b + word_of_int (4)) (word_of_int 4) (b + word_of_int (8)) (word_of_int 8)"
      by (rule apart_within) (use Sb in linarith)+
    then show ?thesis by (simp add: sS add_diff_eq add.commute)
  qed
  have f19: "apart (b + 4) 4 (16 + b) 8"
  proof -
    have "apart (b + word_of_int (4)) (word_of_int 4) (b + word_of_int (16)) (word_of_int 8)"
      by (rule apart_within) (use Sb in linarith)+
    then show ?thesis by (simp add: sS add_diff_eq add.commute)
  qed
  have f20: "apart (b + 4) 4 (Y + 4) 8"
  proof -
    have "apart ((Y + 4) + word_of_int (0)) (word_of_int 8) (b + word_of_int (4)) (word_of_int 4)"
      by (rule apart_sub_int [OF sepY]) (use Sb in \<open>simp_all add: us\<close>)
    then show ?thesis by (simp add: sS apart_sym add_diff_eq add.commute)
  qed
  have f21: "apart (b + 4) 4 (F + 12) 8"
  proof -
    have "apart (F + word_of_int (12)) (word_of_int 8) (b + word_of_int (4)) (word_of_int 4)"
      by (rule apart_sub_int [OF sepF]) (use Sb in \<open>simp_all add: us\<close>)
    then show ?thesis by (simp add: sS apart_sym add_diff_eq add.commute)
  qed
  have f22: "apart (b + s - 8) 4 (b) 4"
  proof -
    have "apart (b + word_of_int (0)) (word_of_int 4) (b + word_of_int (S - 8)) (word_of_int 4)"
      by (rule apart_within) (use Sb in linarith)+
    then show ?thesis by (simp add: sS apart_sym add_diff_eq add.commute)
  qed
  have f23: "apart (b + s - 8) 4 (b + s - 4) 4"
  proof -
    have "apart (b + word_of_int (S - 8)) (word_of_int 4) (b + word_of_int (S - 4)) (word_of_int 4)"
      by (rule apart_within) (use Sb in linarith)+
    then show ?thesis by (simp add: sS add_diff_eq add.commute)
  qed
  have f24: "apart (b + s - 8) 4 (b + 4) 4"
  proof -
    have "apart (b + word_of_int (4)) (word_of_int 4) (b + word_of_int (S - 8)) (word_of_int 4)"
      by (rule apart_within) (use Sb in linarith)+
    then show ?thesis by (simp add: sS apart_sym add_diff_eq add.commute)
  qed
  have f25: "apart (b + s - 8) 4 (8 + b) 8"
  proof -
    have "apart (b + word_of_int (8)) (word_of_int 8) (b + word_of_int (S - 8)) (word_of_int 4)"
      by (rule apart_within) (use Sb in linarith)+
    then show ?thesis by (simp add: sS apart_sym add_diff_eq add.commute)
  qed
  have f26: "apart (b + s - 8) 4 (16 + b) 8"
  proof -
    have "apart (b + word_of_int (16)) (word_of_int 8) (b + word_of_int (S - 8)) (word_of_int 4)"
      by (rule apart_within) (use Sb in linarith)+
    then show ?thesis by (simp add: sS apart_sym add_diff_eq add.commute)
  qed
  have f27: "apart (b + s - 8) 4 (Y + 4) 8"
  proof -
    have "apart ((Y + 4) + word_of_int (0)) (word_of_int 8) (b + word_of_int (S - 8)) (word_of_int 4)"
      by (rule apart_sub_int [OF sepY]) (use Sb in \<open>simp_all add: us\<close>)
    then show ?thesis by (simp add: sS apart_sym add_diff_eq add.commute)
  qed
  have f28: "apart (b + s - 8) 4 (F + 12) 8"
  proof -
    have "apart (F + word_of_int (12)) (word_of_int 8) (b + word_of_int (S - 8)) (word_of_int 4)"
      by (rule apart_sub_int [OF sepF]) (use Sb in \<open>simp_all add: us\<close>)
    then show ?thesis by (simp add: sS apart_sym add_diff_eq add.commute)
  qed
  have f29: "apart (8 + b) 8 (b) 4"
  proof -
    have "apart (b + word_of_int (0)) (word_of_int 4) (b + word_of_int (8)) (word_of_int 8)"
      by (rule apart_within) (use Sb in linarith)+
    then show ?thesis by (simp add: sS apart_sym add_diff_eq add.commute)
  qed
  have f30: "apart (8 + b) 8 (b + s - 4) 4"
  proof -
    have "apart (b + word_of_int (8)) (word_of_int 8) (b + word_of_int (S - 4)) (word_of_int 4)"
      by (rule apart_within) (use Sb in linarith)+
    then show ?thesis by (simp add: sS add_diff_eq add.commute)
  qed
  have f31: "apart (8 + b) 8 (b + 4) 4"
  proof -
    have "apart (b + word_of_int (4)) (word_of_int 4) (b + word_of_int (8)) (word_of_int 8)"
      by (rule apart_within) (use Sb in linarith)+
    then show ?thesis by (simp add: sS apart_sym add_diff_eq add.commute)
  qed
  have f32: "apart (8 + b) 8 (b + s - 8) 4"
  proof -
    have "apart (b + word_of_int (8)) (word_of_int 8) (b + word_of_int (S - 8)) (word_of_int 4)"
      by (rule apart_within) (use Sb in linarith)+
    then show ?thesis by (simp add: sS add_diff_eq add.commute)
  qed
  have f33: "apart (8 + b) 8 (16 + b) 8"
  proof -
    have "apart (b + word_of_int (8)) (word_of_int 8) (b + word_of_int (16)) (word_of_int 8)"
      by (rule apart_within) (use Sb in linarith)+
    then show ?thesis by (simp add: sS add_diff_eq add.commute)
  qed
  have f34: "apart (8 + b) 8 (Y + 4) 8"
  proof -
    have "apart ((Y + 4) + word_of_int (0)) (word_of_int 8) (b + word_of_int (8)) (word_of_int 8)"
      by (rule apart_sub_int [OF sepY]) (use Sb in \<open>simp_all add: us\<close>)
    then show ?thesis by (simp add: sS apart_sym add_diff_eq add.commute)
  qed
  have f35: "apart (8 + b) 8 (F + 12) 8"
  proof -
    have "apart (F + word_of_int (12)) (word_of_int 8) (b + word_of_int (8)) (word_of_int 8)"
      by (rule apart_sub_int [OF sepF]) (use Sb in \<open>simp_all add: us\<close>)
    then show ?thesis by (simp add: sS apart_sym add_diff_eq add.commute)
  qed
  have f36: "apart (16 + b) 8 (b) 4"
  proof -
    have "apart (b + word_of_int (0)) (word_of_int 4) (b + word_of_int (16)) (word_of_int 8)"
      by (rule apart_within) (use Sb in linarith)+
    then show ?thesis by (simp add: sS apart_sym add_diff_eq add.commute)
  qed
  have f37: "apart (16 + b) 8 (b + s - 4) 4"
  proof -
    have "apart (b + word_of_int (16)) (word_of_int 8) (b + word_of_int (S - 4)) (word_of_int 4)"
      by (rule apart_within) (use Sb in linarith)+
    then show ?thesis by (simp add: sS add_diff_eq add.commute)
  qed
  have f38: "apart (16 + b) 8 (b + 4) 4"
  proof -
    have "apart (b + word_of_int (4)) (word_of_int 4) (b + word_of_int (16)) (word_of_int 8)"
      by (rule apart_within) (use Sb in linarith)+
    then show ?thesis by (simp add: sS apart_sym add_diff_eq add.commute)
  qed
  have f39: "apart (16 + b) 8 (b + s - 8) 4"
  proof -
    have "apart (b + word_of_int (16)) (word_of_int 8) (b + word_of_int (S - 8)) (word_of_int 4)"
      by (rule apart_within) (use Sb in linarith)+
    then show ?thesis by (simp add: sS add_diff_eq add.commute)
  qed
  have f40: "apart (16 + b) 8 (8 + b) 8"
  proof -
    have "apart (b + word_of_int (8)) (word_of_int 8) (b + word_of_int (16)) (word_of_int 8)"
      by (rule apart_within) (use Sb in linarith)+
    then show ?thesis by (simp add: sS apart_sym add_diff_eq add.commute)
  qed
  have f41: "apart (16 + b) 8 (Y + 4) 8"
  proof -
    have "apart ((Y + 4) + word_of_int (0)) (word_of_int 8) (b + word_of_int (16)) (word_of_int 8)"
      by (rule apart_sub_int [OF sepY]) (use Sb in \<open>simp_all add: us\<close>)
    then show ?thesis by (simp add: sS apart_sym add_diff_eq add.commute)
  qed
  have f42: "apart (16 + b) 8 (F + 12) 8"
  proof -
    have "apart (F + word_of_int (12)) (word_of_int 8) (b + word_of_int (16)) (word_of_int 8)"
      by (rule apart_sub_int [OF sepF]) (use Sb in \<open>simp_all add: us\<close>)
    then show ?thesis by (simp add: sS apart_sym add_diff_eq add.commute)
  qed
  have f43: "apart (Y + 4) 8 (b) 4"
  proof -
    have "apart ((Y + 4) + word_of_int (0)) (word_of_int 8) (b + word_of_int (0)) (word_of_int 4)"
      by (rule apart_sub_int [OF sepY]) (use Sb in \<open>simp_all add: us\<close>)
    then show ?thesis by (simp add: sS add_diff_eq add.commute)
  qed
  have f44: "apart (Y + 4) 8 (b + s - 4) 4"
  proof -
    have "apart ((Y + 4) + word_of_int (0)) (word_of_int 8) (b + word_of_int (S - 4)) (word_of_int 4)"
      by (rule apart_sub_int [OF sepY]) (use Sb in \<open>simp_all add: us\<close>)
    then show ?thesis by (simp add: sS add_diff_eq add.commute)
  qed
  have f45: "apart (Y + 4) 8 (b + 4) 4"
  proof -
    have "apart ((Y + 4) + word_of_int (0)) (word_of_int 8) (b + word_of_int (4)) (word_of_int 4)"
      by (rule apart_sub_int [OF sepY]) (use Sb in \<open>simp_all add: us\<close>)
    then show ?thesis by (simp add: sS add_diff_eq add.commute)
  qed
  have f46: "apart (Y + 4) 8 (b + s - 8) 4"
  proof -
    have "apart ((Y + 4) + word_of_int (0)) (word_of_int 8) (b + word_of_int (S - 8)) (word_of_int 4)"
      by (rule apart_sub_int [OF sepY]) (use Sb in \<open>simp_all add: us\<close>)
    then show ?thesis by (simp add: sS add_diff_eq add.commute)
  qed
  have f47: "apart (Y + 4) 8 (8 + b) 8"
  proof -
    have "apart ((Y + 4) + word_of_int (0)) (word_of_int 8) (b + word_of_int (8)) (word_of_int 8)"
      by (rule apart_sub_int [OF sepY]) (use Sb in \<open>simp_all add: us\<close>)
    then show ?thesis by (simp add: sS add_diff_eq add.commute)
  qed
  have f48: "apart (Y + 4) 8 (16 + b) 8"
  proof -
    have "apart ((Y + 4) + word_of_int (0)) (word_of_int 8) (b + word_of_int (16)) (word_of_int 8)"
      by (rule apart_sub_int [OF sepY]) (use Sb in \<open>simp_all add: us\<close>)
    then show ?thesis by (simp add: sS add_diff_eq add.commute)
  qed
  have f49: "apart (Y + 4) 8 (F + 12) 8"
    using sepYF by simp
  have f50: "apart (F + 12) 8 (b) 4"
  proof -
    have "apart (F + word_of_int (12)) (word_of_int 8) (b + word_of_int (0)) (word_of_int 4)"
      by (rule apart_sub_int [OF sepF]) (use Sb in \<open>simp_all add: us\<close>)
    then show ?thesis by (simp add: sS add_diff_eq add.commute)
  qed
  have f51: "apart (F + 12) 8 (b + s - 4) 4"
  proof -
    have "apart (F + word_of_int (12)) (word_of_int 8) (b + word_of_int (S - 4)) (word_of_int 4)"
      by (rule apart_sub_int [OF sepF]) (use Sb in \<open>simp_all add: us\<close>)
    then show ?thesis by (simp add: sS add_diff_eq add.commute)
  qed
  have f52: "apart (F + 12) 8 (b + 4) 4"
  proof -
    have "apart (F + word_of_int (12)) (word_of_int 8) (b + word_of_int (4)) (word_of_int 4)"
      by (rule apart_sub_int [OF sepF]) (use Sb in \<open>simp_all add: us\<close>)
    then show ?thesis by (simp add: sS add_diff_eq add.commute)
  qed
  have f53: "apart (F + 12) 8 (b + s - 8) 4"
  proof -
    have "apart (F + word_of_int (12)) (word_of_int 8) (b + word_of_int (S - 8)) (word_of_int 4)"
      by (rule apart_sub_int [OF sepF]) (use Sb in \<open>simp_all add: us\<close>)
    then show ?thesis by (simp add: sS add_diff_eq add.commute)
  qed
  have f54: "apart (F + 12) 8 (8 + b) 8"
  proof -
    have "apart (F + word_of_int (12)) (word_of_int 8) (b + word_of_int (8)) (word_of_int 8)"
      by (rule apart_sub_int [OF sepF]) (use Sb in \<open>simp_all add: us\<close>)
    then show ?thesis by (simp add: sS add_diff_eq add.commute)
  qed
  have f55: "apart (F + 12) 8 (16 + b) 8"
  proof -
    have "apart (F + word_of_int (12)) (word_of_int 8) (b + word_of_int (16)) (word_of_int 8)"
      by (rule apart_sub_int [OF sepF]) (use Sb in \<open>simp_all add: us\<close>)
    then show ?thesis by (simp add: sS add_diff_eq add.commute)
  qed
  have f56: "apart (F + 12) 8 (Y + 4) 8"
    using apart_sym [OF sepYF] by simp

  note facts = f1 f2 f3 f4 f5 f6 f7 f8 f9 f10 f11 f12 f13 f14 f15 f16 f17 f18 f19 f20 f21 f22 f23 f24 f25 f26 f27 f28 f29 f30 f31 f32 f33 f34 f35 f36 f37 f38 f39 f40 f41 f42 f43 f44 f45 f46 f47 f48 f49 f50 f51 f52 f53 f54 f55 f56
  have t1: "((D - 8) OR 1) AND NOT 7 = D - 8"
    using aligned_or_flag(1) [OF aligned_sub8 [OF al]] .
  have t2: "(scast (D - 8) :: addr) = s - 8"
    unfolding s_def using big by (intro scast_sub8) linarith
  have t3: "(D - 8) AND NOT 7 = D - 8"
    using aligned_or_flag(3) [OF aligned_sub8 [OF al]] .
  show "load32 M b = 0"
    using facts t1 t2
    by (simp add: M_def ck_setInfo_eq fl_insert_def Let_def apart_simps Y_def [symmetric]
        add_diff_eq)
  show "load32 M (b + s - 4) = 0"
    using facts t1 t2
    by (simp add: M_def ck_setInfo_eq fl_insert_def Let_def apart_simps Y_def [symmetric]
        add_diff_eq)
  show "load32 M (b + 4) = (D - 8) OR 1"
    using facts t1 t2
    by (simp add: M_def ck_setInfo_eq fl_insert_def Let_def apart_simps Y_def [symmetric]
        add_diff_eq)
  show "load32 M (b + s - 8) = (D - 8) OR 1"
    using facts t1 t2
    by (simp add: M_def ck_setInfo_eq fl_insert_def Let_def apart_simps Y_def [symmetric]
        add_diff_eq)
  show "load64 M (8 + b) = F"
    using facts t1 t2
    by (simp add: M_def ck_setInfo_eq fl_insert_def Let_def apart_simps Y_def [symmetric]
        add_diff_eq)
  show "load64 M (16 + b) = Y"
    using facts t1 t2
    by (simp add: M_def ck_setInfo_eq fl_insert_def Let_def apart_simps Y_def [symmetric]
        add_diff_eq)
  show "load64 M (Y + 4) = b + 4"
    using facts t1 t2
    by (simp add: M_def ck_setInfo_eq fl_insert_def Let_def apart_simps Y_def [symmetric]
        add_diff_eq)
  show "load64 M (F + 12) = b + 4"
    using facts t1 t2
    by (simp add: M_def ck_setInfo_eq fl_insert_def Let_def apart_simps Y_def [symmetric]
        add_diff_eq)
  show "load32 M2 b = 0"
    using facts t1 t2 t3
    by (simp add: M2_def M_def ck_size_def H_defs ck_setInfo_eq fl_insert_def fl_remove_def
        Let_def apart_simps Y_def [symmetric] add_diff_eq)
  show "load32 M2 (b + s - 4) = 0"
    using facts t1 t2 t3
    by (simp add: M2_def M_def ck_size_def H_defs ck_setInfo_eq fl_insert_def fl_remove_def
        Let_def apart_simps Y_def [symmetric] add_diff_eq)
  show "load32 M2 (b + 4) = D - 8"
    using facts t1 t2 t3
    by (simp add: M2_def M_def ck_size_def H_defs ck_setInfo_eq fl_insert_def fl_remove_def
        Let_def apart_simps Y_def [symmetric] add_diff_eq)
  show "load32 M2 (b + s - 8) = D - 8"
    using facts t1 t2 t3
    by (simp add: M2_def M_def ck_size_def H_defs ck_setInfo_eq fl_insert_def fl_remove_def
        Let_def apart_simps Y_def [symmetric] add_diff_eq)
  show "load64 M2 (F + 12) = Y"
    using facts t1 t2 t3
    by (simp add: M2_def M_def ck_size_def H_defs ck_setInfo_eq fl_insert_def fl_remove_def
        Let_def apart_simps Y_def [symmetric] add_diff_eq)
  show "load64 M2 (Y + 4) = F"
    using facts t1 t2 t3
    by (simp add: M2_def M_def ck_size_def H_defs ck_setInfo_eq fl_insert_def fl_remove_def
        Let_def apart_simps Y_def [symmetric] add_diff_eq)
qed

section \<open>Initialisation and walking the free list\<close>

lemma store_bytes_apply:
  assumes "length bs \<le> 2 ^ 64"
  shows "store_bytes m a bs x = (if unat (x - a) < length bs then bs ! unat (x - a) else m x)"
proof (cases "unat (x - a) < length bs")
  case True
  have "store_bytes m a bs (a + of_nat (unat (x - a))) = bs ! unat (x - a)"
    using True assms by (rule store_bytes_hit)
  then show ?thesis using True by simp
next
  case False
  then show ?thesis by (simp add: store_bytes_frame)
qed

lemma store32_apply:
  "store32 m a v x = (if unat (x - a) < 4 then bytes32 v ! unat (x - a) else m x)"
  unfolding store32_def by (subst store_bytes_apply) (simp_all add: bytes32_def)

lemma sbrk_0:
  "sbrk st 0 =
     (if uint (os_brk_lo st) \<le> uint (brk st) \<and> uint (brk st) \<le> uint (os_brk_hi st)
      then brk st else - 1, st)"
  by (simp add: sbrk_def)

lemma init_idem: "init (init st) = init st"
proof (cases "BASE st \<noteq> 0")
  case True
  then show ?thesis by (simp add: init_def)
next
  case False
  show ?thesis
  proof (cases "uint (os_brk_lo st) \<le> uint (brk st) \<and> uint (brk st) \<le> uint (os_brk_hi st)")
    case refused: False
    then have "sbrk st 0 = (- 1, st)" by (auto simp add: sbrk_0)
    moreover have "sbrk (st\<lparr>debug := d, mem := m\<rparr>) 0 = (- 1, st\<lparr>debug := d, mem := m\<rparr>)" for m d
      using refused by (auto simp add: sbrk_0)
    ultimately show ?thesis using \<open>\<not> BASE st \<noteq> 0\<close> by (simp add: init_def Let_def)
  next
    case granted: True
    show ?thesis
    proof (cases "brk st = 0")
      case False
      with granted \<open>\<not> BASE st \<noteq> 0\<close> show ?thesis by (simp add: init_def sbrk_0 Let_def)
    next
      case True
      have "store64 (store64 (store32 (store64 (store64 (store32 (mem st) (FreeList st) 0)
                (FreeList st + 4) (FreeList st)) (FreeList st + 12) (FreeList st)) (FreeList st) 0)
                (FreeList st + 4) (FreeList st)) (FreeList st + 12) (FreeList st)
            = store64 (store64 (store32 (mem st) (FreeList st) 0)
                (FreeList st + 4) (FreeList st)) (FreeList st + 12) (FreeList st)"
        by (rule ext) (simp add: store64_def store32_apply)
      with True granted \<open>\<not> BASE st \<noteq> 0\<close> show ?thesis
        by (simp add: init_def sbrk_0 Let_def)
    qed
  qed
qed

lemma fl_print_loop_acc:
  assumes a: "fl_print_loop m l p acc = Some xs"
  shows "set acc \<subseteq> set xs"
proof (rule fl_print_loop.raw_induct [where P = "\<lambda>m l p acc xs. set acc \<subseteq> set xs", OF _ a])
  fix f :: "memory \<Rightarrow> addr \<Rightarrow> addr \<Rightarrow> addr list \<Rightarrow> addr list option"
  fix m l p acc xs
  assume IH: "\<And>m' l' p' acc' y. f m' l' p' acc' = Some y \<Longrightarrow> set acc' \<subseteq> set y"
     and eq: "(if p \<noteq> l then f m l (load64 m (p + 12)) (acc @ [p]) else Some acc) = Some xs"
  show "set acc \<subseteq> set xs"
  proof (cases "p \<noteq> l")
    case True
    with eq have "f m l (load64 m (p + 12)) (acc @ [p]) = Some xs" by simp
    then have "set (acc @ [p]) \<subseteq> set xs" by (rule IH)
    then show ?thesis by simp
  next
    case False
    with eq show ?thesis by simp
  qed
qed

lemma fl_print_walk:
  "fl_print st0 = Some xs \<Longrightarrow>
   fl_print_loop (mem (init st0)) (FreeList (init st0))
     (load64 (mem (init st0)) (FreeList (init st0) + 12)) [] = Some xs"
  by (simp add: fl_print_def Let_def split: option.splits)

lemma no_fit_gives_anchor:
  assumes walk: "fl_print_loop m l (load64 m (l + 12)) [] = Some xs"
      and nofit: "\<forall>x\<in>set xs. ck_payloadSize m x <s t"
  shows "fl_findBestFit m l t = l"
proof (cases "load64 m (l + 12) = l")
  case True
  then show ?thesis by (simp add: fl_findBestFit_def Let_def)
next
  case False
  let ?h = "load64 m (l + 12)"
  from walk False
  have "fl_print_loop m l (load64 m (?h + 12)) ([] @ [?h]) = Some xs"
    by (subst (asm) fl_print_loop.simps) simp
  then have "set ([] @ [?h]) \<subseteq> set xs" by (rule fl_print_loop_acc)
  then have "ck_payloadSize m ?h <s t" using nofit by simp
  then show ?thesis by (simp add: fl_findBestFit_def Let_def)
qed

lemma FreeList_init [simp]: "FreeList (init st) = FreeList st"
  by (simp add: init_def sbrk_0 Let_def)

lemma brk_init [simp]: "brk (init st) = brk st"
  by (simp add: init_def sbrk_0 Let_def)

lemma uint_grown:
  fixes b h :: addr and D :: info
  assumes "0 \<le> sint D" "uint b + sint D \<le> uint h"
  shows "uint (b + scast D) = uint b + sint D"
proof -
  have "uint h < 18446744073709551616" using uint_lt2p [of h] by simp
  then have "uint b + sint D < 18446744073709551616" using assms(2) by linarith
  moreover have "0 \<le> uint b + sint D" using assms(1) by simp
  ultimately show ?thesis
    using assms(1) by (simp add: uint_word_ariths uint_scast_nonneg)
qed

lemma grow_eq_named:
  assumes st: "st = init st0" and D: "D = grow_amount (PAGE_SIZE st) sz" and b: "b = brk st"
      and pos: "0 \<le> sint D"
      and lo: "uint (os_brk_lo st) \<le> uint b" and hi: "uint b + sint D \<le> uint (os_brk_hi st)"
  shows "grow st sz l =
           (b + 4, st\<lparr>brk := b + scast D, HWM := b + scast D,
              mem := fl_insert (ck_setInfo (store32 (store32 (mem st) b 0) (b + scast D - 4) 0)
                (b + 4) ((D - 8) OR 1)) l (b + 4)\<rparr>)"
proof -
  have i: "init st = st" unfolding st by (rule init_idem)
  have u: "uint (b + scast D) = uint b + sint D" using pos hi by (rule uint_grown)
  have s1: "sbrk st (scast D) = (b, st\<lparr>brk := b + scast D\<rparr>)"
    using pos lo hi by (simp add: sbrk_def sint_scast64 b [symmetric])
  have s2: "sbrk (st\<lparr>brk := b + scast D\<rparr>) 0 = (b + scast D, st\<lparr>brk := b + scast D\<rparr>)"
    using pos lo hi by (simp add: sbrk_0 u)
  have d: "int_div (ucast (scast sz + 4 * H_IS :: addr) + PAGE_SIZE st - 1) (PAGE_SIZE st)
             * PAGE_SIZE st = D"
    by (simp add: D grow_amount_def)
  show ?thesis
    unfolding grow_def i Let_def d s1 s2 prod.case
    by (simp add: H_defs ucast_sub64 ucast_add64 ucast_scast_info)
qed

lemma hmalloc_grow_eq:
  assumes "st = init st0"
      and "sz = (if scast size0 < H_MINPAYLOAD then ucast H_MINPAYLOAD else size0)"
      and "load32 (mem st) (fl_findBestFit (mem st) (FreeList st) sz) = 0"
      and "grow st sz (FreeList st) = (c, G)"
  shows "hmalloc st0 size0 =
           (c + 4, G\<lparr>mem := fl_remove (ck_setInfo (mem G) c (ck_size (mem G) c)) c\<rparr>)"
  using assms by (simp add: hmalloc_def Let_def H_defs)

lemma clamp_ge:
  fixes size0 :: info
  defines "sz \<equiv> (if scast size0 < H_MINPAYLOAD then ucast H_MINPAYLOAD else size0)"
  assumes "0 \<le> sint size0"
  shows "16 \<le> sint sz" "sint size0 \<le> sint sz"
proof -
  have u: "uint (scast size0 :: addr) = sint size0" using assms(2) by (rule uint_scast_nonneg)
  have "16 \<le> sint sz \<and> sint size0 \<le> sint sz"
  proof (cases "(scast size0 :: addr) < 16")
    case True
    then have "sint size0 < 16" using u by (simp add: word_less_def)
    moreover have "sz = 16" using True by (simp add: sz_def H_defs)
    ultimately show ?thesis by simp
  next
    case False
    then have "16 \<le> sint size0" using u by (simp add: word_less_def)
    moreover have "sz = size0" using False by (simp add: sz_def H_defs)
    ultimately show ?thesis by simp
  qed
  then show "16 \<le> sint sz" "sint size0 \<le> sint sz" by simp_all
qed

lemma init_start_eq:
  "init start = \<lparr>mem = store64 (store64 (store32 (\<lambda>_. 0) 0x601080 0) 0x601084 0x601080)
        0x60108C 0x601080,
      BASE = 0x1000000, HWM = 0x1000000, PAGE_SIZE = 4096, debug = False,
      FreeList = 0x601080, brk = 0x1000000, os_brk_lo = 0x1000000, os_brk_hi = 0x2000000,
      os_pagesize = 4096, env_DEBUG = False, out = []\<rparr>"
  by (simp add: init_def start_def sbrk_def Let_def)

lemma start_fields: "FreeList start = 0x601080" "brk start = 0x1000000"
  by (simp_all add: start_def)

lemma fl_print_start: "fl_print start = Some []"
  by (simp add: fl_print_def init_start_eq fl_size_def fl_size_loop.simps fl_print_loop.simps
      ls_simps Let_def)

section \<open>The sample states, computed\<close>

lemma sample_heap_eq:
  "sample_heap = \<lparr>mem =
        store64 (store64 (store64 (store64 (store32 (store32 (store64 (store64 (store64
        (store64 (store32 (store32 (store64 (store64 (store64 (store64 (store32 (store32
        (store32 (store32 (store32 (store32 (store64 (store64 (store32 (\<lambda>_. 0)
        0x601080 0) 0x601084 0x601080) 0x60108C 0x601080) 0x1000000 0) 0x1000FFC 0)
        0x10000EC 0xF10) 0x1000FF8 0xF10) 0x1000064 0x89) 0x10000E8 0x89) 0x1000068
        0x601080) 0x1000070 0x601080) 0x601084 0x1000064) 0x60108C 0x1000064) 0x100001C
        0x49) 0x1000060 0x49) 0x1000020 0x601080) 0x1000028 0x1000064) 0x1000068
        0x100001C) 0x60108C 0x100001C) 0x1000004 0x19) 0x1000018 0x19) 0x1000008 0x601080)
        0x1000010 0x100001C) 0x1000020 0x1000004) 0x60108C 0x1000004,
      BASE = 0x1000000, HWM = 0x1001000, PAGE_SIZE = 4096, debug = False,
      FreeList = 0x601080, brk = 0x1001000, os_brk_lo = 0x1000000, os_brk_hi = 0x2000000,
      os_pagesize = 4096, env_DEBUG = False, out = []\<rparr>"
  by (simp add: sample_heap_def init_start_eq sbrk_def Let_def H_defs ck_setInfo_def
      ck_footerAddr_def fl_insert_def ls_simps)

lemma sample_reads:
  "load32 (mem sample_heap) 0x601080 = 0"
  "load64 (mem sample_heap) 0x60108C = 0x1000004"
  "load64 (mem sample_heap) 0x1000010 = 0x100001C"
  "load64 (mem sample_heap) 0x1000028 = 0x1000064"
  "load64 (mem sample_heap) 0x1000070 = 0x601080"
  "load32 (mem sample_heap) 0x1000004 = 25"
  "load32 (mem sample_heap) 0x100001C = 73"
  "load32 (mem sample_heap) 0x1000064 = 137"
  by (simp_all add: sample_heap_eq ls_simps)

lemma stale_fields:
  "init stale_heap = stale_heap" "PAGE_SIZE stale_heap = 4096" "brk stale_heap = 0x1001000"
  "FreeList stale_heap = 0x601080" "os_brk_lo stale_heap = 0x1000000"
  "os_brk_hi stale_heap = 0x2000000" "BASE stale_heap = 0x1000000" "out stale_heap = []"
  by (simp_all add: stale_heap_def sample_heap_eq init_def)

lemma stale_reads:
  "load32 (mem stale_heap) 0x601080 = 0"
  "load64 (mem stale_heap) 0x60108C = 0x1000004"
  "load64 (mem stale_heap) 0x1000010 = 0x100001C"
  "load64 (mem stale_heap) 0x1000028 = 0x1000064"
  "load64 (mem stale_heap) 0x1000070 = 0x601080"
  "load32 (mem stale_heap) 0x1000004 = 25"
  "load32 (mem stale_heap) 0x100001C = 73"
  "load32 (mem stale_heap) 0x1000064 = 137"
  "load32 (mem stale_heap) 0x1001000 = 0x5A5A5A5A"
  "load32 (mem stale_heap) 0x1001004 = 0x5A5A5A5A"
  "load32 (mem stale_heap) 0x1001FF8 = 0x5A5A5A5A"
  "load32 (mem stale_heap) 0x1001FFC = 0x5A5A5A5A"
  by (simp_all add: stale_heap_def sample_reads ls_simps)

lemma stale_walk: "fl_print stale_heap = Some [0x1000004, 0x100001C, 0x1000064]"
  by (simp add: fl_print_def stale_fields stale_reads fl_size_def fl_size_loop.simps
      fl_print_loop.simps Let_def)

lemma stale_payloads:
  "ck_payloadSize (mem stale_heap) 0x1000004 = 16"
  "ck_payloadSize (mem stale_heap) 0x100001C = 64"
  "ck_payloadSize (mem stale_heap) 0x1000064 = 128"
  by (simp_all add: ck_payloadSize_def ck_size_def stale_reads H_defs)

lemma grow_amount_4096_200: "grow_amount 4096 200 = 4096"
  by (simp add: grow_amount_def H_defs int_div_def signed_divide_int_def)

section \<open>Growth\<close>

lemma grow_amount_huge: "grow_amount 4096 2147483647 = 0x80002000"
  by (simp add: grow_amount_def H_defs int_div_def signed_divide_int_def)

lemma sint_huge: "sint (0x80002000 :: info) = - 2147475456"
  by simp

lemma grow_brk:
  "brk (snd (grow st0 d0 l)) =
     brk (snd (sbrk (init st0) (scast (grow_amount (PAGE_SIZE (init st0)) d0))))"
  by (simp add: grow_def grow_amount_def Let_def sbrk_0 split_beta)

lemma hmalloc_brk:
  assumes "load32 (mem (init st0)) (fl_findBestFit (mem (init st0)) (FreeList (init st0))
             (if scast size0 < H_MINPAYLOAD then ucast H_MINPAYLOAD else size0)) = 0"
  shows "brk (snd (hmalloc st0 size0)) =
           brk (snd (grow (init st0)
             (if scast size0 < H_MINPAYLOAD then ucast H_MINPAYLOAD else size0)
             (FreeList (init st0))))"
  using assms by (simp add: hmalloc_def Let_def split_beta)

lemma init_start_fit:
  "fl_findBestFit (mem (init start)) (FreeList start) t = 0x601080"
  by (simp add: init_start_eq start_fields fl_findBestFit_def Let_def ls_simps)


text \<open>
  Claim C9, as it is stated, for every request that no free chunk satisfies: the segment
  grows once, by a multiple of the page size that covers the request. The request is an
  \<^verbatim>\<open>int\<close> and \<^verbatim>\<open>grow\<close> computes the amount in \<^verbatim>\<open>int\<close>. In the fresh process
  \<open>start\<close> the free list is empty, so no chunk satisfies the request for 2147483647
  bytes. The two assignments to \<^verbatim>\<open>delta\<close> wrap around and leave the amount
  \<open>-2147475456\<close>; \<^verbatim>\<open>sbrk\<close> refuses it and returns \<^verbatim>\<open>(void*)-1\<close>; the break after
  \<^verbatim>\<open>grow\<close>, and after \<^verbatim>\<open>hmalloc\<close>, is the break before the call: no byte has been
  claimed.
\<close>

theorem huge_request_claims_nothing:
  "fl_print start = Some []
   \<and> sint (grow_amount (PAGE_SIZE (init start)) 2147483647) = - 2147475456
   \<and> sbrk (init start) (scast (grow_amount (PAGE_SIZE (init start)) 2147483647))
         = (- 1, init start)
   \<and> brk (snd (grow (init start) 2147483647 (FreeList start))) = brk start
   \<and> brk (snd (hmalloc start 2147483647)) = brk start"
proof -
  have P: "PAGE_SIZE (init start) = 4096" by (simp add: init_start_eq)
  have s: "sbrk (init start) (- 2147475456) = (- 1, init start)"
    by (simp add: sbrk_def init_start_eq)
  have i: "init (init start) = init start" by (rule init_idem)
  have g: "brk (snd (grow (init start) 2147483647 (FreeList start))) = brk start"
    by (simp add: grow_brk i P grow_amount_huge s)
  have a: "load32 (mem (init start)) 0x601080 = 0"
    by (simp add: init_start_eq ls_simps)
  have h: "brk (snd (hmalloc start 2147483647)) =
             brk (snd (grow (init start) 2147483647 (FreeList (init start))))"
    by (subst hmalloc_brk) (simp_all add: init_start_fit a H_defs)
  show ?thesis
    using g h by (simp add: fl_print_start P grow_amount_huge s)
qed


text \<open>
  Claim C9, for a request that fits and a growth that the operating system grants.
  Below, \<open>st\<close> is the state after \<^verbatim>\<open>init\<close>, \<open>sz\<close> the clamped request, \<open>D\<close>
  the amount \<^verbatim>\<open>grow\<close> asks \<^verbatim>\<open>sbrk\<close> for, \<open>b\<close> the break before the call,
  \<open>F\<close> the anchor of the free list and \<open>Y\<close> its first node; \<open>c\<close> and \<open>G\<close>
  are the chunk and the state that \<^verbatim>\<open>grow\<close> returns, \<open>p\<close> and \<open>A\<close> the pointer
  and the state that \<^verbatim>\<open>hmalloc\<close> returns. The hypotheses say that the request is not
  negative, that the anchor's tag is 0, that the walk of the free list ends and meets no
  chunk whose payload reaches \<open>sz\<close>, that the page size is a positive multiple of 8,
  that \<open>sz + 16\<close> plus the page size stays below \<open>2^31\<close>, that the operating system
  accepts the break \<open>b\<close> and the break \<open>b + D\<close>, and that the anchor and the back
  link of the first node lie outside the bytes about to be claimed.

  Then \<open>D\<close> is a multiple of the page size that covers \<open>sz + 16\<close>; \<^verbatim>\<open>sbrk\<close> returns
  \<open>b\<close> and moves the break to \<open>b + D\<close> without wrapping around, and \<^verbatim>\<open>HWM\<close> is
  set to the new break. After \<^verbatim>\<open>grow\<close> the four bytes at \<open>b\<close> and the four bytes at
  \<open>b + D - 4\<close> hold 0; the chunk \<open>c\<close> starts at \<open>b + 4\<close>, has the size
  \<open>D - 8\<close>, so that it ends where the last sentinel starts, carries the tag
  \<open>(D - 8) OR H_FREE\<close> in its header and in its footer at \<open>b + D - 8\<close>, and is the
  first node of the free list, between the anchor and the former first node. After
  \<^verbatim>\<open>hmalloc\<close> the break and \<^verbatim>\<open>HWM\<close> are still \<open>b + D\<close>: there was one growth.
  The pointer returned is \<open>b + 8\<close>, and the \<open>sz\<close> bytes behind it end before the
  footer. In the state returned by \<^verbatim>\<open>hmalloc\<close> the two sentinels hold 0, the header
  at \<open>p - 4\<close> and the footer at \<open>b + D - 8\<close> hold \<open>D - 8\<close> with the free flag
  clear, and the free list is linked as it was before the call.
\<close>

theorem hmalloc_grows_once:
  fixes st0 :: heap_state and size0 :: info and xs :: "addr list"
  defines "st \<equiv> init st0"
  defines "sz \<equiv> (if scast size0 < H_MINPAYLOAD then ucast H_MINPAYLOAD else size0)"
  defines "D \<equiv> grow_amount (PAGE_SIZE st) sz"
  defines "b \<equiv> brk st" and "F \<equiv> FreeList st"
  defines "Y \<equiv> load64 (mem st) (F + 12)"
  defines "c \<equiv> fst (grow st sz F)" and "G \<equiv> snd (grow st sz F)"
  defines "p \<equiv> fst (hmalloc st0 size0)" and "A \<equiv> snd (hmalloc st0 size0)"
  assumes req: "0 \<le> sint size0"
      and anchor: "load32 (mem st) F = 0"
      and walk: "fl_print st0 = Some xs"
      and nofit: "\<forall>x\<in>set xs. ck_payloadSize (mem st) x <s sz"
      and page: "0 < sint (PAGE_SIZE st)" "PAGE_SIZE st AND 7 = 0"
      and room: "sint sz + 16 + sint (PAGE_SIZE st) < 2147483648"
      and granted: "uint (os_brk_lo st) \<le> uint b" "uint b + sint D \<le> uint (os_brk_hi st)"
      and sepF: "apart F 20 b (scast D)"
      and sepY: "apart (Y + 4) 8 b (scast D)" "apart (Y + 4) 8 (F + 12) 8"
  shows "sint (PAGE_SIZE st) dvd sint D \<and> sint sz + 16 \<le> sint D
       \<and> sbrk st (scast D) = (b, st\<lparr>brk := b + scast D\<rparr>)
       \<and> uint (b + scast D) = uint b + sint D
       \<and> brk G = b + scast D \<and> HWM G = b + scast D
       \<and> load32 (mem G) b = 0 \<and> load32 (mem G) (b + scast D - 4) = 0
       \<and> c = b + 4
       \<and> load32 (mem G) c = (D - 8) OR H_FREE
       \<and> ck_footerAddr (mem G) c = b + scast D - 8
       \<and> load32 (mem G) (b + scast D - 8) = (D - 8) OR H_FREE
       \<and> ck_size (mem G) c = D - 8 \<and> sint (D - 8) = sint D - 8
       \<and> load32 (mem G) c AND H_FREE = H_FREE
       \<and> load64 (mem G) (F + 12) = c \<and> load64 (mem G) (c + 4) = F
       \<and> load64 (mem G) (c + 12) = Y \<and> load64 (mem G) (Y + 4) = c
       \<and> p = b + 8 \<and> uint p = uint b + 8 \<and> uint p + sint sz \<le> uint b + sint D - 8
       \<and> brk A = b + scast D \<and> HWM A = b + scast D
       \<and> BASE A = BASE st \<and> FreeList A = F \<and> out A = out st
       \<and> load32 (mem A) b = 0 \<and> load32 (mem A) (b + scast D - 4) = 0
       \<and> load32 (mem A) (p - 4) = D - 8 \<and> load32 (mem A) (b + scast D - 8) = D - 8
       \<and> load64 (mem A) (F + 12) = Y \<and> load64 (mem A) (Y + 4) = F"
proof -
  have sz16: "16 \<le> sint sz" and szr: "sint size0 \<le> sint sz"
    unfolding sz_def using req by (rule clamp_ge)+
  have sz0: "0 \<le> sint sz" using sz16 by linarith
  have room': "sint sz + 16 + sint (PAGE_SIZE st) < 2 ^ 31" using room by simp
  have Ds: "sint D = (sint sz + 16 + sint (PAGE_SIZE st) - 1) div sint (PAGE_SIZE st) * sint (PAGE_SIZE st)"
    unfolding D_def by (rule grow_amount_sint [OF page(1) sz0 room'])
  have x0: "0 \<le> sint sz + 16" using sz0 by linarith
  note rb = roundup_bounds [OF x0 page(1)]
  have cover: "sint sz + 16 \<le> sint D" using rb(1) unfolding Ds .
  have dv: "sint (PAGE_SIZE st) dvd sint D" using rb(3) unfolding Ds .
  have big: "32 \<le> sint D" using cover sz16 by linarith
  have pos: "0 \<le> sint D" using big by linarith
  have al: "D AND 7 = 0" unfolding D_def by (rule grow_amount_aligned [OF page(2)])
  note gm = grown_memory [OF al big sepF sepY(1) [unfolded Y_def] sepY(2) [unfolded Y_def]]
  have st_eq: "st = init st0" by (simp add: st_def)
  have sz_eq: "sz = (if scast size0 < H_MINPAYLOAD then ucast H_MINPAYLOAD else size0)"
    by (simp add: sz_def)
  have D_eq: "D = grow_amount (PAGE_SIZE st) sz" by (simp add: D_def)
  have b_eq: "b = brk st" by (simp add: b_def)
  have F_eq: "F = FreeList st" by (simp add: F_def)
  note ge = grow_eq_named [OF st_eq D_eq b_eq pos granted, of F]
  have u: "uint (b + scast D) = uint b + sint D" using pos granted(2) by (rule uint_grown)
  have fit: "fl_findBestFit (mem st) F sz = F"
    using fl_print_walk [OF walk] nofit unfolding st_def F_def
    by (intro no_fit_gives_anchor) simp_all
  have fit0: "load32 (mem st) (fl_findBestFit (mem st) (FreeList st) sz) = 0"
    using fit anchor by (simp add: F_eq)
  have gG: "grow st sz (FreeList st) = (b + 4, G)" using ge by (simp add: G_def F_eq)
  note he = hmalloc_grow_eq [OF st_eq sz_eq fit0 gG]
  have t1: "((D - 8) OR 1) AND NOT 7 = D - 8"
    using aligned_or_flag(1) [OF aligned_sub8 [OF al]] .
  have t2: "(scast (D - 8) :: addr) = scast D - 8"
    using big by (intro scast_sub8) linarith
  have t4: "((D - 8) OR 1) AND 1 = 1"
    using aligned_or_flag(2) [OF aligned_sub8 [OF al]] .
  have c_eq: "c = b + 4" by (simp add: c_def ge)
  have G_eq: "G = st\<lparr>brk := b + scast D, HWM := b + scast D,
      mem := fl_insert (ck_setInfo (store32 (store32 (mem st) b 0) (b + scast D - 4) 0)
                (b + 4) ((D - 8) OR 1)) F (b + 4)\<rparr>"
    by (simp add: G_def ge)
  have p_eq: "p = b + 8" by (simp add: p_def he)
  have A_eq: "A = G\<lparr>mem := fl_remove (ck_setInfo (mem G) (b + 4) (ck_size (mem G) (b + 4))) (b + 4)\<rparr>"
    by (simp add: A_def he)
  have memG: "mem G = fl_insert (ck_setInfo (store32 (store32 (mem st) b 0) (b + scast D - 4) 0)
                (b + 4) ((D - 8) OR 1)) F (b + 4)"
    by (simp add: G_eq)
  have memA: "mem A = fl_remove (ck_setInfo (mem G) (b + 4) (ck_size (mem G) (b + 4))) (b + 4)"
    by (simp add: A_eq)
  note gmG = gm [folded memG]
  note gmA = gmG [folded memA]
  have hdr: "load32 (mem G) c = (D - 8) OR 1" using gmG(3) by (simp add: c_eq)
  have foot: "ck_footerAddr (mem G) c = b + scast D - 8"
    using t1 t2 by (simp add: ck_footerAddr_def hdr H_defs) (simp add: c_eq add_diff_eq)
  have up: "uint p = uint b + 8"
  proof -
    have "uint (os_brk_hi st) < 18446744073709551616" using uint_lt2p [of "os_brk_hi st"] by simp
    then have "uint b + 8 < 18446744073709551616" using granted(2) big by linarith
    then show ?thesis by (simp add: p_eq uint_word_ariths)
  qed
  show ?thesis
  proof (intro conjI)
    show "sint (PAGE_SIZE st) dvd sint D" by (fact dv)
    show "sint sz + 16 \<le> sint D" by (fact cover)
    show "sbrk st (scast D) = (b, st\<lparr>brk := b + scast D\<rparr>)"
      using pos granted by (simp add: sbrk_def sint_scast64 b_eq [symmetric])
    show "uint (b + scast D) = uint b + sint D" by (fact u)
    show "brk G = b + scast D" "HWM G = b + scast D" by (simp_all add: G_eq)
    show "load32 (mem G) b = 0" by (fact gmG(1))
    show "load32 (mem G) (b + scast D - 4) = 0" by (fact gmG(2))
    show "c = b + 4" by (fact c_eq)
    show "load32 (mem G) c = (D - 8) OR H_FREE" using hdr by (simp add: H_defs)
    show "ck_footerAddr (mem G) c = b + scast D - 8" by (fact foot)
    show "load32 (mem G) (b + scast D - 8) = (D - 8) OR H_FREE"
      using gmG(4) by (simp add: H_defs)
    show sz_c: "ck_size (mem G) c = D - 8" using t1 by (simp add: ck_size_def hdr H_defs)
    show "sint (D - 8) = sint D - 8"
      using big sint_num_range [of D] by (subst sint_sub_range) simp_all
    show "load32 (mem G) c AND H_FREE = H_FREE" using t4 by (simp add: hdr H_defs)
    show "load64 (mem G) (F + 12) = c" using gmG(8) by (simp add: c_eq)
    show "load64 (mem G) (c + 4) = F" using gmG(5) by (simp add: c_eq)
    show "load64 (mem G) (c + 12) = Y" using gmG(6) by (simp add: c_eq Y_def)
    show "load64 (mem G) (Y + 4) = c" using gmG(7) by (simp add: c_eq Y_def)
    show "p = b + 8" by (fact p_eq)
    show "uint p = uint b + 8" by (fact up)
    show "uint p + sint sz \<le> uint b + sint D - 8" using up cover by linarith
    show "brk A = b + scast D" "HWM A = b + scast D" by (simp_all add: A_eq G_eq)
    show "BASE A = BASE st" "FreeList A = F" "out A = out st" by (simp_all add: A_eq G_eq F_eq)
    show "load32 (mem A) b = 0" by (fact gmA(9))
    show "load32 (mem A) (b + scast D - 4) = 0" by (fact gmA(10))
    have pm: "p - 4 = b + 4" by (simp add: p_eq)
    show "load32 (mem A) (p - 4) = D - 8" unfolding pm by (fact gmA(11))
    show "load32 (mem A) (b + scast D - 8) = D - 8" by (fact gmA(12))
    show "load64 (mem A) (F + 12) = Y" using gmA(13) by (simp add: Y_def)
    show "load64 (mem A) (Y + 4) = F" using gmA(14) by (simp add: Y_def)
  qed
qed

theorem hmalloc_grows_once_witness:
  "fl_print stale_heap = Some [0x1000004, 0x100001C, 0x1000064]
   \<and> map (ck_payloadSize (mem stale_heap)) [0x1000004, 0x100001C, 0x1000064] = [16, 64, 128]
   \<and> load32 (mem stale_heap) 0x1001000 = 0x5A5A5A5A
   \<and> load32 (mem stale_heap) 0x1001004 = 0x5A5A5A5A
   \<and> load32 (mem stale_heap) 0x1001FF8 = 0x5A5A5A5A
   \<and> load32 (mem stale_heap) 0x1001FFC = 0x5A5A5A5A
   \<and> fst (hmalloc stale_heap 200) = 0x1001008
   \<and> brk (snd (hmalloc stale_heap 200)) = 0x1002000
   \<and> HWM (snd (hmalloc stale_heap 200)) = 0x1002000
   \<and> load32 (mem (snd (hmalloc stale_heap 200))) 0x1001000 = 0
   \<and> load32 (mem (snd (hmalloc stale_heap 200))) 0x1001004 = 4088
   \<and> load32 (mem (snd (hmalloc stale_heap 200))) 0x1001FF8 = 4088
   \<and> load32 (mem (snd (hmalloc stale_heap 200))) 0x1001FFC = 0
   \<and> load64 (mem (snd (hmalloc stale_heap 200))) 0x60108C = 0x1000004
   \<and> load64 (mem (snd (hmalloc stale_heap 200))) 0x1000008 = 0x601080"
proof -
  have a: "apart 0x601080 20 0x1001000 4096" "apart 0x1000008 8 0x1001000 4096"
    "apart 0x1000008 8 0x60108C 8"
    by (simp_all add: apart_def)
  note t = hmalloc_grows_once [where ?st0.0 = stale_heap and ?size0.0 = 200
      and xs = "[0x1000004, 0x100001C, 0x1000064]"]
  show ?thesis
    using a t
    apply (simp add: stale_fields stale_reads stale_walk stale_payloads grow_amount_4096_200
        H_defs)
    apply (elim conjE)
    apply simp
    done
qed

end
